theory Spec2Isabelle
  imports Complex_Main
begin

section \<open>The belt probe helper of klippy/extras/belt\_probe.py\<close>

text \<open>
  The helper is a Python object whose methods call four collaborators: the gcode
  dispatcher, the toolhead, the kinematics and the status holder looked up as
  \<^verbatim>\<open>manual_probe\<close>. The model passes the object (\<open>helper\<close>) and the state of the
  collaborators (\<open>printer\<close>) explicitly and returns both, together with the exception
  raised, if any. In the methods Python floats are modelled as reals, which leaves
  rounding, infinities and NaN out; the one property that rounding decides, the direction
  of a step, is settled on the double arithmetic of \<open>round_double\<close> instead. Text sent to
  the operator is a value of \<open>message\<close>: the numbers it shows are kept, their
  \<^verbatim>\<open>%.3f\<close> formatting is not.
\<close>

subsection \<open>Data\<close>

datatype error =
    Config_error
  | Gcode_error string
  | Param_error string
  | Command_error
  | Index_error
  | Type_error
  | Attribute_error
  | Unknown_command

datatype handler = Dummy | Cmd_ACCEPT | Cmd_ABORT | Cmd_TESTY

datatype message =
    Starting_belt_probe
  | Warning_no_change
  | Y_position "real option" real "real option"
  | Belt_probe_failed

record status =
  is_active :: bool
  y_position :: "real option"
  y_position_lower :: "real option"
  y_position_upper :: "real option"

text \<open>
  A command as the handlers read it: \<^verbatim>\<open>get_float("SPEED", 5.)\<close> reads \<open>param_SPEED\<close>,
  \<^verbatim>\<open>get("Y")\<close> reads the text \<open>param_Y\<close>, and \<^verbatim>\<open>get_float("Y")\<close> reads
  \<open>param_Y_float\<close>, the number that text denotes when it denotes one.
\<close>

record gcmd =
  param_SPEED :: "real option"
  param_Y :: "string option"
  param_Y_float :: "real option"

text \<open>
  The motion stack and the kinematics are outside the repository. \<open>rejects\<close> says which
  target positions the motion stack refuses (it then raises \<^verbatim>\<open>command_error\<close>), and
  \<open>resolve\<close> gives the position the kinematics computes from the steppers once the
  toolhead has reached a commanded position.
\<close>

record env =
  rejects :: "real list \<Rightarrow> bool"
  resolve :: "real list \<Rightarrow> real list"

record printer =
  handlers :: "string \<rightharpoonup> handler"
  responses :: "message list"
  toolhead_position :: "real list"
  kinematics_position :: "real list"
  manual_moves :: "(real option list \<times> real) list"
  flushed :: nat
  probe_status :: status
  finalized :: "real list option list"

record helper =
  speed :: real
  past_positions :: "real list"
  last_toolhead_pos :: "real list option"
  last_kinematics_pos :: "real list option"
  start_position :: "real list option"

definition Y_BOB_MINIMUM :: real where
  "Y_BOB_MINIMUM = 0.500"

definition BISECT_MAX :: real where
  "BISECT_MAX = 0.200"

subsection \<open>Python's list operations\<close>

text \<open>
  \<^verbatim>\<open>bisect.bisect_left(a, x)\<close> of the standard library: the binary search, with
  \<open>lo = 0\<close> and \<open>hi = len(a)\<close>.
\<close>

function bisect_left_loop :: "real list \<Rightarrow> real \<Rightarrow> nat \<Rightarrow> nat \<Rightarrow> nat" where
  "bisect_left_loop a x lo hi =
     (if lo < hi then
        (let mid = (lo + hi) div 2 in
         if a ! mid < x then bisect_left_loop a x (mid + 1) hi
         else bisect_left_loop a x lo mid)
      else lo)"
  by pat_completeness auto
termination
  by (relation "measure (\<lambda>(a, x, lo, hi). hi - lo)") auto

declare bisect_left_loop.simps [simp del]

definition bisect_left :: "real list \<Rightarrow> real \<Rightarrow> nat" where
  "bisect_left a x = bisect_left_loop a x 0 (length a)"

text \<open>\<^verbatim>\<open>a.insert(i, x)\<close> for \<open>0 \<le> i\<close>: an index beyond the end appends.\<close>

definition list_insert :: "nat \<Rightarrow> real \<Rightarrow> real list \<Rightarrow> real list" where
  "list_insert i x a = take i a @ x # drop i a"

text \<open>\<^verbatim>\<open>xs[i]\<close> for \<open>0 \<le> i\<close>, where \<open>xs\<close> may be \<^verbatim>\<open>None\<close>.\<close>

definition item :: "real list option \<Rightarrow> nat \<Rightarrow> error + real" where
  "item xs i =
     (case xs of
        None \<Rightarrow> Inl Type_error
      | Some l \<Rightarrow> if i < length l then Inr (l ! i) else Inl Index_error)"

subsection \<open>The collaborators\<close>

text \<open>
  Modelled from the spec: the command dispatcher's \<^verbatim>\<open>register_command\<close> is not in the
  repository. It holds at most one handler per name, refuses a second handler for a name
  with \<^verbatim>\<open>config_error\<close> (the exception \<^verbatim>\<open>verify_no_manual_probe\<close> catches), and
  registering \<^verbatim>\<open>None\<close> removes the name, which is a no-op when it is not registered.
\<close>

definition register_command :: "string \<Rightarrow> handler option \<Rightarrow> printer \<Rightarrow> (error + unit) \<times> printer" where
  "register_command cmd func p =
     (case func of
        None \<Rightarrow> (Inr (), p\<lparr>handlers := (handlers p)(cmd := None)\<rparr>)
      | Some f \<Rightarrow>
          if handlers p cmd \<noteq> None then (Inl Config_error, p)
          else (Inr (), p\<lparr>handlers := (handlers p)(cmd \<mapsto> f)\<rparr>))"

definition respond_info :: "message \<Rightarrow> printer \<Rightarrow> printer" where
  "respond_info m p = p\<lparr>responses := responses p @ [m]\<rparr>"

text \<open>
  Modelled from the spec: the motion stack's \<^verbatim>\<open>manual_move\<close> is not in the repository.
  Unset axes of the target hold their current value; the move either completes, and the
  toolhead is at the target, or fails with \<^verbatim>\<open>command_error\<close>.
\<close>

fun merge_target :: "real option list \<Rightarrow> real list \<Rightarrow> real list" where
  "merge_target (t # ts) (c # cs) = (case t of None \<Rightarrow> c | Some v \<Rightarrow> v) # merge_target ts cs"
| "merge_target [] cs = cs"
| "merge_target ts [] = []"

definition manual_move :: "env \<Rightarrow> real option list \<Rightarrow> real \<Rightarrow> printer \<Rightarrow> (error + unit) \<times> printer" where
  "manual_move e coord spd p =
     (let p1 = p\<lparr>manual_moves := manual_moves p @ [(coord, spd)]\<rparr>;
          newpos = merge_target coord (toolhead_position p1)
      in if rejects e newpos then (Inl Command_error, p1)
         else (Inr (), p1\<lparr>toolhead_position := newpos, kinematics_position := resolve e newpos\<rparr>))"

text \<open>
  \<^verbatim>\<open>self.manual_probe.reset_status()\<close>: the object looked up as \<^verbatim>\<open>manual_probe\<close> is
  outside the repository; its method is taken to be the \<^verbatim>\<open>reset_status\<close> of
  \<^verbatim>\<open>BeltProbe\<close> in the same file.
\<close>

definition reset_status :: "printer \<Rightarrow> printer" where
  "reset_status p =
     p\<lparr>probe_status := \<lparr>is_active = False, y_position = None,
                          y_position_lower = None, y_position_upper = None\<rparr>\<rparr>"

subsection \<open>verify\_no\_manual\_probe\<close>

definition verify_no_manual_probe :: "printer \<Rightarrow> (error + unit) \<times> printer" where
  "verify_no_manual_probe p =
     (case register_command ''ACCEPT'' (Some Dummy) p of
        (Inl err, p1) \<Rightarrow> (Inl (Gcode_error ''Already in a Belt probe. Use ABORT to abort it.''), p1)
      | (Inr u, p1) \<Rightarrow> register_command ''ACCEPT'' None p1)"

subsection \<open>BeltProbeHelper\<close>

definition get_kinematics_pos :: "helper \<Rightarrow> printer \<Rightarrow> real list option \<times> helper \<times> printer" where
  "get_kinematics_pos self p =
     (let toolhead_pos = toolhead_position p in
      if Some toolhead_pos = last_toolhead_pos self then (last_kinematics_pos self, self, p)
      else
        (let p1 = p\<lparr>flushed := Suc (flushed p)\<rparr>;
             kin_pos = kinematics_position p1
         in (Some kin_pos,
             self\<lparr>last_toolhead_pos := Some toolhead_pos, last_kinematics_pos := Some kin_pos\<rparr>,
             p1)))"

definition finalize :: "helper \<Rightarrow> bool \<Rightarrow> printer \<Rightarrow> helper \<times> printer" where
  "finalize self success p =
     (let p1 = reset_status p;
          p2 = snd (register_command ''ACCEPT'' None p1);
          p3 = snd (register_command ''NEXT'' None p2);
          p4 = snd (register_command ''ABORT'' None p3);
          p5 = snd (register_command ''TESTY'' None p4)
      in case (if success then get_kinematics_pos self p5 else (None, self, p5)) of
           (kin_pos, self1, p6) \<Rightarrow> (self1, p6\<lparr>finalized := finalized p6 @ [kin_pos]\<rparr>))"

definition move_y :: "env \<Rightarrow> helper \<Rightarrow> real \<Rightarrow> printer \<Rightarrow> (error + unit) \<times> helper \<times> printer" where
  "move_y e self y_pos p =
     (let curpos = toolhead_position p;
          y_bob_pos = y_pos + Y_BOB_MINIMUM
      in if length curpos \<le> 2 then (Inl Index_error, self, p)
         else
           (case (if curpos ! 2 < y_bob_pos
                  then manual_move e [None, None, Some y_bob_pos] (speed self) p
                  else (Inr (), p)) of
              (Inl err, p1) \<Rightarrow>
                (case finalize self False p1 of (self1, p2) \<Rightarrow> (Inl err, self1, p2))
            | (Inr u, p1) \<Rightarrow>
                (case manual_move e [None, None, Some y_pos] (speed self) p1 of
                   (Inl err, p2) \<Rightarrow>
                     (case finalize self False p2 of (self1, p3) \<Rightarrow> (Inl err, self1, p3))
                 | (Inr v, p2) \<Rightarrow> (Inr (), self, p2))))"

definition report_y_status :: "helper \<Rightarrow> bool \<Rightarrow> real option \<Rightarrow> printer \<Rightarrow> (error + unit) \<times> helper \<times> printer" where
  "report_y_status self warn_no_change prev_pos p =
     (case get_kinematics_pos self p of
        (kin_pos, self1, p1) \<Rightarrow>
          (case item kin_pos 1 of
             Inl err \<Rightarrow> (Inl err, self1, p1)
           | Inr y_pos \<Rightarrow>
               (let p2 = (if warn_no_change \<and> Some y_pos = prev_pos
                          then respond_info Warning_no_change p1 else p1);
                    pp = past_positions self1;
                    next_pos0 = bisect_left pp y_pos;
                    prev_idx = int next_pos0 - 1;
                    next_pos = (if next_pos0 < length pp \<and> pp ! next_pos0 = y_pos
                                then next_pos0 + 1 else next_pos0);
                    prev_pos_val = (if prev_idx \<ge> 0 then Some (pp ! nat prev_idx) else None);
                    next_pos_val = (if next_pos < length pp then Some (pp ! next_pos) else None);
                    p3 = p2\<lparr>probe_status :=
                           \<lparr>is_active = True, y_position = Some y_pos,
                            y_position_lower = prev_pos_val, y_position_upper = next_pos_val\<rparr>\<rparr>
                in (Inr (), self1, respond_info (Y_position prev_pos_val y_pos next_pos_val) p3))))"

definition BeltProbeHelper_init :: "gcmd \<Rightarrow> printer \<Rightarrow> (error + unit) \<times> helper \<times> printer" where
  "BeltProbeHelper_init g p =
     (let self0 = \<lparr>speed = (case param_SPEED g of None \<Rightarrow> 5 | Some v \<Rightarrow> v),
                   past_positions = [], last_toolhead_pos = None,
                   last_kinematics_pos = None, start_position = None\<rparr>
      in case verify_no_manual_probe p of
           (Inl err, p1) \<Rightarrow> (Inl err, self0, p1)
         | (Inr u1, p1) \<Rightarrow>
      (case register_command ''ACCEPT'' (Some Cmd_ACCEPT) p1 of
           (Inl err, p2) \<Rightarrow> (Inl err, self0, p2)
         | (Inr u2, p2) \<Rightarrow>
      (case register_command ''NEXT'' (Some Cmd_ACCEPT) p2 of
           (Inl err, p3) \<Rightarrow> (Inl err, self0, p3)
         | (Inr u3, p3) \<Rightarrow>
      (case register_command ''ABORT'' (Some Cmd_ABORT) p3 of
           (Inl err, p4) \<Rightarrow> (Inl err, self0, p4)
         | (Inr u4, p4) \<Rightarrow>
      (case register_command ''TESTY'' (Some Cmd_TESTY) p4 of
           (Inl err, p5) \<Rightarrow> (Inl err, self0, p5)
         | (Inr u5, p5) \<Rightarrow>
             (let p6 = respond_info Starting_belt_probe p5;
                  self1 = self0\<lparr>start_position := Some (toolhead_position p6)\<rparr>
              in report_y_status self1 False None p6))))))"

definition cmd_ACCEPT :: "helper \<Rightarrow> gcmd \<Rightarrow> printer \<Rightarrow> (error + unit) \<times> helper \<times> printer" where
  "cmd_ACCEPT self g p =
     (let pos = toolhead_position p in
      case start_position self of
        None \<Rightarrow> (Inl Attribute_error, self, p)
      | Some start_pos \<Rightarrow>
          if take 2 pos \<noteq> take 2 start_pos then
            (case finalize self False (respond_info Belt_probe_failed p) of
               (self1, p1) \<Rightarrow> (Inr (), self1, p1))
          else if length pos \<le> 2 \<or> length start_pos \<le> 2 then (Inl Index_error, self, p)
          else if pos ! 2 \<ge> start_pos ! 2 then
            (case finalize self False (respond_info Belt_probe_failed p) of
               (self1, p1) \<Rightarrow> (Inr (), self1, p1))
          else
            (case finalize self True p of (self1, p1) \<Rightarrow> (Inr (), self1, p1)))"

definition cmd_ABORT :: "helper \<Rightarrow> gcmd \<Rightarrow> printer \<Rightarrow> (error + unit) \<times> helper \<times> printer" where
  "cmd_ABORT self g p = (case finalize self False p of (self1, p1) \<Rightarrow> (Inr (), self1, p1))"

text \<open>
  \<^verbatim>\<open>cmd_TESTY\<close>, in its three parts. \<open>testy_insert\<close> is lines 205 to 208: it stores the
  current value in the history and gives the insertion index. \<open>testy_next_y_pos\<close> is
  lines 210 to 226: the position to move to.
\<close>

definition testy_insert :: "real list \<Rightarrow> real \<Rightarrow> nat \<times> real list" where
  "testy_insert pp y_pos =
     (let insert_pos = bisect_left pp y_pos in
      if insert_pos \<ge> length pp \<or> pp ! insert_pos \<noteq> y_pos
      then (insert_pos, list_insert insert_pos y_pos pp)
      else (insert_pos, pp))"

definition testy_next_y_pos :: "real list \<Rightarrow> nat \<Rightarrow> real \<Rightarrow> gcmd \<Rightarrow> error + real" where
  "testy_next_y_pos pp insert_pos y_pos g =
     (case param_Y g of
        None \<Rightarrow> Inl (Param_error ''Y'')
      | Some req \<Rightarrow>
          if req = ''+'' \<or> req = ''++'' then
            (let check_y = (if int insert_pos < int (length pp) - 1
                            then pp ! (insert_pos + 1) else 9999999999999.9);
                 check_y1 = (if req = ''+'' then (check_y + y_pos) / 2 else check_y)
             in Inr (min check_y1 (y_pos + BISECT_MAX)))
          else if req = ''-'' \<or> req = ''--'' then
            (let check_y = (if insert_pos > 0
                            then pp ! (insert_pos - 1) else - 9999999999999.9);
                 check_y1 = (if req = ''-'' then (check_y + y_pos) / 2 else check_y)
             in Inr (max check_y1 (y_pos - BISECT_MAX)))
          else
            (case param_Y_float g of
               None \<Rightarrow> Inl (Param_error ''Y'')
             | Some d \<Rightarrow> Inr (y_pos + d)))"

definition cmd_TESTY :: "env \<Rightarrow> helper \<Rightarrow> gcmd \<Rightarrow> printer \<Rightarrow> (error + unit) \<times> helper \<times> printer" where
  "cmd_TESTY e self g p =
     (case get_kinematics_pos self p of
        (kin_pos, self1, p1) \<Rightarrow>
          (case item kin_pos 1 of
             Inl err \<Rightarrow> (Inl err, self1, p1)
           | Inr y_pos \<Rightarrow>
               (case testy_insert (past_positions self1) y_pos of
                  (insert_pos, pp) \<Rightarrow>
                    (let self2 = self1\<lparr>past_positions := pp\<rparr> in
                     case testy_next_y_pos pp insert_pos y_pos g of
                       Inl err \<Rightarrow> (Inl err, self2, p1)
                     | Inr next_y_pos \<Rightarrow>
                         (case move_y e self2 next_y_pos p1 of
                            (Inl err, self3, p2) \<Rightarrow> (Inl err, self3, p2)
                          | (Inr u, self3, p2) \<Rightarrow>
                              report_y_status self3 (next_y_pos \<noteq> y_pos) (Some y_pos) p2)))))"

text \<open>
  Modelled from the spec: the dispatcher's way of running a command is not in the
  repository. A name with no handler does not reach the helper; the string
  \<^verbatim>\<open>'dummy'\<close> that \<^verbatim>\<open>verify_no_manual_probe\<close> registers for a moment is not callable.
\<close>

definition dispatch :: "env \<Rightarrow> helper \<Rightarrow> string \<Rightarrow> gcmd \<Rightarrow> printer \<Rightarrow> (error + unit) \<times> helper \<times> printer" where
  "dispatch e self cmd g p =
     (case handlers p cmd of
        None \<Rightarrow> (Inl Unknown_command, self, p)
      | Some Dummy \<Rightarrow> (Inl Type_error, self, p)
      | Some Cmd_ACCEPT \<Rightarrow> cmd_ACCEPT self g p
      | Some Cmd_ABORT \<Rightarrow> cmd_ABORT self g p
      | Some Cmd_TESTY \<Rightarrow> cmd_TESTY e self g p)"

subsection \<open>A session: construction, then commands through the dispatcher\<close>

text \<open>
  Each command comes with the behaviour of the motion stack and the kinematics while it
  runs. An exception ends the command, not the run: the operator may type the next one.
\<close>

fun run_commands :: "(env \<times> string \<times> gcmd) list \<Rightarrow> helper \<Rightarrow> printer \<Rightarrow> helper \<times> printer" where
  "run_commands [] self p = (self, p)"
| "run_commands ((e, cmd, g) # cs) self p =
     (case dispatch e self cmd g p of (r, self1, p1) \<Rightarrow> run_commands cs self1 p1)"

definition session :: "gcmd \<Rightarrow> printer \<Rightarrow> (env \<times> string \<times> gcmd) list \<Rightarrow> helper \<times> printer" where
  "session g p cs = (case BeltProbeHelper_init g p of (r, self, p1) \<Rightarrow> run_commands cs self p1)"

text \<open>The history is in ascending order and holds no value twice.\<close>

definition history_ok :: "helper \<Rightarrow> bool" where
  "history_ok self = (sorted (past_positions self) \<and> distinct (past_positions self))"

subsection \<open>The notions the claims are stated with\<close>

text \<open>
  The nearest stored position strictly above, and strictly below, a value: the claims'
  "nearest previously tested position", stated without the insertion index.
\<close>

definition nearest_above :: "real list \<Rightarrow> real \<Rightarrow> real option" where
  "nearest_above pp y =
     (let c = filter (\<lambda>v. y < v) pp in if c = [] then None else Some (Min (set c)))"

definition nearest_below :: "real list \<Rightarrow> real \<Rightarrow> real option" where
  "nearest_below pp y =
     (let c = filter (\<lambda>v. v < y) pp in if c = [] then None else Some (Max (set c)))"

text \<open>
  The candidate \<^verbatim>\<open>cmd_TESTY\<close> computes from the history and the current value: lines 205
  to 226 as one function.
\<close>

definition testy_candidate :: "real list \<Rightarrow> real \<Rightarrow> gcmd \<Rightarrow> error + real" where
  "testy_candidate pp y g = (case testy_insert pp y of (i, pp') \<Rightarrow> testy_next_y_pos pp' i y g)"

text \<open>The neighbour on each side, or the sentinel of the source when there is none.\<close>

definition upper_bound :: "real list \<Rightarrow> real \<Rightarrow> real" where
  "upper_bound pp y = (case nearest_above pp y of None \<Rightarrow> 9999999999999.9 | Some b \<Rightarrow> b)"

definition lower_bound :: "real list \<Rightarrow> real \<Rightarrow> real" where
  "lower_bound pp y = (case nearest_below pp y of None \<Rightarrow> - 9999999999999.9 | Some b \<Rightarrow> b)"

text \<open>
  The candidates as the spec words them: for the coarse steps the fixed step, cut at the
  neighbour when there is one; for the fine steps the midpoint to the bound, cut at the
  bound, where the bound is the entry next to the insertion index, or the sentinel.
\<close>

definition coarse_up_claimed :: "real list \<Rightarrow> real \<Rightarrow> real" where
  "coarse_up_claimed pp y =
     (case nearest_above pp y of None \<Rightarrow> y + BISECT_MAX | Some b \<Rightarrow> min (y + BISECT_MAX) b)"

definition coarse_down_claimed :: "real list \<Rightarrow> real \<Rightarrow> real" where
  "coarse_down_claimed pp y =
     (case nearest_below pp y of None \<Rightarrow> y - BISECT_MAX | Some b \<Rightarrow> max (y - BISECT_MAX) b)"

definition bound_after :: "real list \<Rightarrow> nat \<Rightarrow> real" where
  "bound_after pp i = (if i + 1 < length pp then pp ! (i + 1) else 9999999999999.9)"

definition bound_before :: "real list \<Rightarrow> nat \<Rightarrow> real" where
  "bound_before pp i = (if 0 < i then pp ! (i - 1) else - 9999999999999.9)"

definition fine_up_claimed :: "real list \<Rightarrow> nat \<Rightarrow> real \<Rightarrow> real" where
  "fine_up_claimed pp i y = min ((y + bound_after pp i) / 2) (bound_after pp i)"

text \<open>A \<^verbatim>\<open>TESTY\<close> command with the text of its \<^verbatim>\<open>Y\<close> parameter and the number it denotes.\<close>

definition testy_cmd :: "string \<Rightarrow> real option \<Rightarrow> gcmd" where
  "testy_cmd txt num = \<lparr>param_SPEED = None, param_Y = Some txt, param_Y_float = num\<rparr>"


text \<open>
  The accept condition as the spec words it: the current position matches the start
  position in every coordinate except the probed one, the third, which is strictly less.
\<close>

definition accept_condition_claimed :: "real list \<Rightarrow> real list \<Rightarrow> bool" where
  "accept_condition_claimed pos start = (pos[2 := start ! 2] = start \<and> pos ! 2 < start ! 2)"

subsection \<open>Double arithmetic\<close>

text \<open>
  Python's floats are IEEE doubles. \<open>round_double\<close> is the rounding every arithmetic
  operation and every literal goes through: to the nearest number with 53 significant
  bits, a tie going to the even one, on the spacing \<open>2 ^ e\<close> that \<open>find_exponent\<close> looks
  up among the exponents a double can have, from -1074 (the subnormal spacing) to 971. A
  result beyond the largest double, which the machine turns into an infinity, is outside
  the model. The doubles are the fixed points of \<open>round_double\<close>.
\<close>

fun find_exponent :: "nat \<Rightarrow> real \<Rightarrow> int" where
  "find_exponent 0 x = - 1074"
| "find_exponent (Suc n) x =
     (if 2 powi (int n - 1021) \<le> \<bar>x\<bar> then int n - 1073 else find_exponent n x)"

definition double_exponent :: "real \<Rightarrow> int" where
  "double_exponent x = find_exponent 2045 x"

definition ulp :: "real \<Rightarrow> real" where
  "ulp x = 2 powi double_exponent x"

definition round_half_even :: "real \<Rightarrow> int" where
  "round_half_even r =
     (let f = \<lfloor>r\<rfloor> in
      if r - of_int f < 1 / 2 then f
      else if 1 / 2 < r - of_int f then f + 1
      else if even f then f else f + 1)"

definition round_double :: "real \<Rightarrow> real" where
  "round_double x = ulp x * of_int (round_half_even (x / ulp x))"

text \<open>
  Lines 210 to 226 once more, as the machine computes them: every sum, every halving
  and both literals are rounded. \<open>testy_next_y_pos\<close> above is the same with the rounding
  left out.
\<close>

definition testy_next_y_pos_double :: "real list \<Rightarrow> nat \<Rightarrow> real \<Rightarrow> gcmd \<Rightarrow> error + real" where
  "testy_next_y_pos_double pp insert_pos y_pos g =
     (case param_Y g of
        None \<Rightarrow> Inl (Param_error ''Y'')
      | Some req \<Rightarrow>
          if req = ''+'' \<or> req = ''++'' then
            (let check_y = (if int insert_pos < int (length pp) - 1
                            then pp ! (insert_pos + 1) else round_double 9999999999999.9);
                 check_y1 = (if req = ''+''
                             then round_double (round_double (check_y + y_pos) / 2) else check_y)
             in Inr (min check_y1 (round_double (y_pos + round_double BISECT_MAX))))
          else if req = ''-'' \<or> req = ''--'' then
            (let check_y = (if insert_pos > 0
                            then pp ! (insert_pos - 1) else - round_double 9999999999999.9);
                 check_y1 = (if req = ''-''
                             then round_double (round_double (check_y + y_pos) / 2) else check_y)
             in Inr (max check_y1 (round_double (y_pos - round_double BISECT_MAX))))
          else
            (case param_Y_float g of
               None \<Rightarrow> Inl (Param_error ''Y'')
             | Some d \<Rightarrow> Inr (round_double (y_pos + d))))"

definition testy_candidate_double :: "real list \<Rightarrow> real \<Rightarrow> gcmd \<Rightarrow> error + real" where
  "testy_candidate_double pp y g =
     (case testy_insert pp y of (i, pp') \<Rightarrow> testy_next_y_pos_double pp' i y g)"

definition upper_bound_double :: "real list \<Rightarrow> real \<Rightarrow> real" where
  "upper_bound_double pp y =
     (case nearest_above pp y of None \<Rightarrow> round_double 9999999999999.9 | Some b \<Rightarrow> b)"

definition lower_bound_double :: "real list \<Rightarrow> real \<Rightarrow> real" where
  "lower_bound_double pp y =
     (case nearest_below pp y of None \<Rightarrow> - round_double 9999999999999.9 | Some b \<Rightarrow> b)"

text \<open>The double next above 1.\<close>

definition next_after_one :: real where
  "next_after_one = 1 + 1 / 2 ^ 52"

subsection \<open>States and collaborators for the examples\<close>

text \<open>
  A \<^verbatim>\<open>BELT_PROBE\<close> command without parameters; a motion stack that accepts every move
  and one that refuses every move, both with kinematics that resolve the first three
  coordinates of the toolhead position to themselves; a printer with no session; and the
  helper and the printer that the construction of a session on that printer gives.
\<close>

definition probe_cmd :: gcmd where
  "probe_cmd = \<lparr>param_SPEED = None, param_Y = None, param_Y_float = None\<rparr>"



definition idle_printer :: printer where
  "idle_printer =
     \<lparr>handlers = Map.empty, responses = [], toolhead_position = [0, 2, 1, 0],
      kinematics_position = [0, 2, 1], manual_moves = [], flushed = 0,
      probe_status = \<lparr>is_active = False, y_position = None,
                      y_position_lower = None, y_position_upper = None\<rparr>,
      finalized = []\<rparr>"

definition started_helper :: helper where
  "started_helper =
     \<lparr>speed = 5, past_positions = [], last_toolhead_pos = Some [0, 2, 1, 0],
      last_kinematics_pos = Some [0, 2, 1], start_position = Some [0, 2, 1, 0]\<rparr>"

definition started_printer :: printer where
  "started_printer =
     \<lparr>handlers = [''ACCEPT'' \<mapsto> Cmd_ACCEPT, ''NEXT'' \<mapsto> Cmd_ACCEPT,
                  ''ABORT'' \<mapsto> Cmd_ABORT, ''TESTY'' \<mapsto> Cmd_TESTY],
      responses = [Starting_belt_probe, Y_position None 2 None],
      toolhead_position = [0, 2, 1, 0],
      kinematics_position = [0, 2, 1], manual_moves = [], flushed = 1,
      probe_status = \<lparr>is_active = True, y_position = Some 2,
                      y_position_lower = None, y_position_upper = None\<rparr>,
      finalized = []\<rparr>"

section \<open>The binary search and the insertion\<close>

lemma item_Some: "item (Some l) i = (if i < length l then Inr (l ! i) else Inl Index_error)"
  by (simp add: item_def)

lemma bisect_left_loop_spec:
  "lo \<le> hi \<Longrightarrow> hi \<le> length a \<Longrightarrow> sorted a \<Longrightarrow>
   (\<forall>j<lo. a ! j < x) \<Longrightarrow> (\<forall>j. hi \<le> j \<and> j < length a \<longrightarrow> x \<le> a ! j) \<Longrightarrow>
   lo \<le> bisect_left_loop a x lo hi \<and> bisect_left_loop a x lo hi \<le> hi \<and>
   (\<forall>j < bisect_left_loop a x lo hi. a ! j < x) \<and>
   (\<forall>j. bisect_left_loop a x lo hi \<le> j \<and> j < length a \<longrightarrow> x \<le> a ! j)"
proof (induction a x lo hi rule: bisect_left_loop.induct)
  case (1 a x lo hi)
  show ?case
  proof (cases "lo < hi")
    case False
    then have "bisect_left_loop a x lo hi = lo"
      by (simp add: bisect_left_loop.simps [of a x lo hi])
    with False "1.prems" show ?thesis by simp
  next
    case True
    define mid where "mid = (lo + hi) div 2"
    have mid: "lo \<le> mid" "mid < hi" using True by (simp_all add: mid_def)
    show ?thesis
    proof (cases "a ! mid < x")
      case lt: True
      have below: "\<forall>j<mid + 1. a ! j < x"
      proof (intro allI impI)
        fix j assume "j < mid + 1"
        then have "j \<le> mid" by simp
        then have "a ! j \<le> a ! mid"
          using "1.prems"(2,3) mid by (simp add: sorted_nth_mono)
        with lt show "a ! j < x" by simp
      qed
      have step: "bisect_left_loop a x lo hi = bisect_left_loop a x (mid + 1) hi"
        using True lt by (simp add: bisect_left_loop.simps [of a x lo hi] mid_def Let_def)
      have "mid + 1 \<le> bisect_left_loop a x (mid + 1) hi \<and> bisect_left_loop a x (mid + 1) hi \<le> hi \<and>
        (\<forall>j < bisect_left_loop a x (mid + 1) hi. a ! j < x) \<and>
        (\<forall>j. bisect_left_loop a x (mid + 1) hi \<le> j \<and> j < length a \<longrightarrow> x \<le> a ! j)"
        using "1.IH"(1) [OF True mid_def lt] mid "1.prems" below by simp
      with step mid show ?thesis by simp
    next
      case ge: False
      have above: "\<forall>j. mid \<le> j \<and> j < length a \<longrightarrow> x \<le> a ! j"
      proof (intro allI impI)
        fix j assume "mid \<le> j \<and> j < length a"
        then have "a ! mid \<le> a ! j"
          using "1.prems"(3) by (simp add: sorted_nth_mono)
        with ge show "x \<le> a ! j" by simp
      qed
      have step: "bisect_left_loop a x lo hi = bisect_left_loop a x lo mid"
        using True ge by (simp add: bisect_left_loop.simps [of a x lo hi] mid_def Let_def)
      have "lo \<le> bisect_left_loop a x lo mid \<and> bisect_left_loop a x lo mid \<le> mid \<and>
        (\<forall>j < bisect_left_loop a x lo mid. a ! j < x) \<and>
        (\<forall>j. bisect_left_loop a x lo mid \<le> j \<and> j < length a \<longrightarrow> x \<le> a ! j)"
        using "1.IH"(2) [OF True mid_def ge] mid "1.prems" above by simp
      with step mid show ?thesis by simp
    qed
  qed
qed

lemma bisect_left_spec:
  assumes "sorted a"
  shows "bisect_left a x \<le> length a"
    and "\<forall>j < bisect_left a x. a ! j < x"
    and "\<forall>j. bisect_left a x \<le> j \<and> j < length a \<longrightarrow> x \<le> a ! j"
  using bisect_left_loop_spec [of 0 "length a" a x] assms
  by (simp_all add: bisect_left_def)

lemma strict_sorted_testy_insert:
  assumes "sorted pp" "distinct pp"
  shows "sorted (snd (testy_insert pp y)) \<and> distinct (snd (testy_insert pp y))"
proof -
  define i where "i = bisect_left pp y"
  note bl = bisect_left_spec [OF assms(1), of y, folded i_def]
  have ss: "sorted_wrt (<) pp" using assms by (simp add: strict_sorted_iff)
  show ?thesis
  proof (cases "i \<ge> length pp \<or> pp ! i \<noteq> y")
    case False
    then show ?thesis using assms by (simp add: testy_insert_def i_def [symmetric])
  next
    case True
    have lo: "\<forall>v \<in> set (take i pp). v < y"
      using bl(1,2) by (auto simp: in_set_conv_nth)
    have hi: "\<forall>v \<in> set (drop i pp). y < v"
    proof
      fix v assume "v \<in> set (drop i pp)"
      then obtain k where k: "k < length pp - i" "v = pp ! (i + k)"
        by (auto simp: in_set_conv_nth)
      then have il: "i < length pp" by simp
      with True have ne: "pp ! i \<noteq> y" by simp
      have "y \<le> pp ! i" using bl(3) il by simp
      with ne have "y < pp ! i" by simp
      moreover have "pp ! i \<le> pp ! (i + k)"
        using assms(1) k(1) by (simp add: sorted_nth_mono)
      ultimately show "y < v" using k(2) by simp
    qed
    have "sorted_wrt (<) (take i pp @ y # drop i pp)"
      using ss lo hi
      by (fastforce simp: sorted_wrt_append)
    then show ?thesis using True
      by (simp add: testy_insert_def i_def [symmetric] list_insert_def strict_sorted_iff)
  qed
qed

section \<open>The history through the methods\<close>

lemma past_get_kinematics_pos:
  "past_positions (fst (snd (get_kinematics_pos self p))) = past_positions self"
  by (simp add: get_kinematics_pos_def Let_def)

lemma past_finalize: "past_positions (fst (finalize self b p)) = past_positions self"
  by (simp add: finalize_def Let_def get_kinematics_pos_def split: prod.splits)

lemma past_finalizeD: "finalize self b p = (self1, p1) \<Longrightarrow> past_positions self1 = past_positions self"
  using past_finalize [of self b p] by simp

lemma past_move_y: "past_positions (fst (snd (move_y e self y p))) = past_positions self"
  by (auto simp: move_y_def Let_def past_finalize split: prod.splits sum.splits dest: past_finalizeD)

lemma past_report_y_status:
  "past_positions (fst (snd (report_y_status self w pv p))) = past_positions self"
  using past_get_kinematics_pos [of self p]
  by (auto simp: report_y_status_def Let_def split: prod.splits sum.splits)

lemma past_cmd_ACCEPT: "past_positions (fst (snd (cmd_ACCEPT self g p))) = past_positions self"
  by (auto simp: cmd_ACCEPT_def Let_def past_finalize split: prod.splits option.splits dest: past_finalizeD)

lemma past_cmd_ABORT: "past_positions (fst (snd (cmd_ABORT self g p))) = past_positions self"
  using past_finalize [of self False p]
  by (auto simp: cmd_ABORT_def split: prod.splits)

lemma past_cmd_TESTY:
  "past_positions (fst (snd (cmd_TESTY e self g p))) = past_positions self \<or>
   (\<exists>y. past_positions (fst (snd (cmd_TESTY e self g p))) = snd (testy_insert (past_positions self) y))"
proof -
  obtain kin_pos self1 p1 where gk: "get_kinematics_pos self p = (kin_pos, self1, p1)"
    by (cases "get_kinematics_pos self p") auto
  have s1: "past_positions self1 = past_positions self"
    using past_get_kinematics_pos [of self p] gk by simp
  show ?thesis
  proof (cases "item kin_pos 1")
    case (Inl err)
    then show ?thesis using gk s1 by (simp add: cmd_TESTY_def)
  next
    case (Inr y)
    obtain i pp where ti: "testy_insert (past_positions self) y = (i, pp)"
      by (cases "testy_insert (past_positions self) y") auto
    define self2 where "self2 = self1\<lparr>past_positions := pp\<rparr>"
    have s2: "past_positions self2 = pp" by (simp add: self2_def)
    show ?thesis
    proof (cases "testy_next_y_pos pp i y g")
      case (Inl err)
      then have "past_positions (fst (snd (cmd_TESTY e self g p))) = pp"
        using gk Inr ti s1 by (simp add: cmd_TESTY_def)
      then show ?thesis using ti by (metis snd_conv)
    next
      case nx: (Inr ny)
      obtain r self3 p2 where mv: "move_y e self2 ny p1 = (r, self3, p2)"
        by (cases "move_y e self2 ny p1") auto
      have s3: "past_positions self3 = pp"
        using past_move_y [of e self2 ny p1] mv s2 by simp
      have "past_positions (fst (snd (cmd_TESTY e self g p))) = pp"
        using gk Inr ti s1 nx mv s3 past_report_y_status [of self3 "ny \<noteq> y" "Some y" p2]
        by (cases r) (simp_all add: cmd_TESTY_def self2_def [symmetric])
      then show ?thesis using ti by (metis snd_conv)
    qed
  qed
qed

lemma history_ok_dispatch:
  assumes "history_ok self"
  shows "history_ok (fst (snd (dispatch e self cmd g p)))"
proof (cases "handlers p cmd")
  case None
  then show ?thesis using assms by (simp add: dispatch_def)
next
  case (Some h)
  show ?thesis
  proof (cases h)
    case Dummy
    then show ?thesis using assms Some by (simp add: dispatch_def)
  next
    case Cmd_ACCEPT
    then show ?thesis using assms Some past_cmd_ACCEPT [of self g p]
      by (simp add: dispatch_def history_ok_def)
  next
    case Cmd_ABORT
    then show ?thesis using assms Some past_cmd_ABORT [of self g p]
      by (simp add: dispatch_def history_ok_def)
  next
    case Cmd_TESTY
    then show ?thesis
      using assms Some past_cmd_TESTY [of e self g p] strict_sorted_testy_insert
      by (auto simp: dispatch_def history_ok_def)
  qed
qed

lemma history_ok_run_commands:
  "history_ok self \<Longrightarrow> history_ok (fst (run_commands cs self p))"
proof (induction cs arbitrary: self p)
  case Nil
  then show ?case by simp
next
  case (Cons c cs)
  obtain e cmd g where c: "c = (e, cmd, g)" by (cases c) auto
  obtain r self1 p1 where d: "dispatch e self cmd g p = (r, self1, p1)"
    by (cases "dispatch e self cmd g p") auto
  have "history_ok self1" using history_ok_dispatch [OF Cons.prems, of e cmd g p] d by simp
  then show ?case using Cons.IH c d by simp
qed

lemma past_init: "past_positions (fst (snd (BeltProbeHelper_init g p))) = []"
  using past_report_y_status
  by (auto simp: BeltProbeHelper_init_def Let_def split: prod.splits sum.splits)

text \<open>
  C3. In every session, whatever commands the operator sends and however the motion stack
  and the kinematics answer, the history of tested positions is in ascending order and
  holds no value twice after each command, hence after each insertion: a value already
  stored is not stored again.
\<close>

theorem past_positions_sorted_distinct:
  "sorted (past_positions (fst (session g p cs))) \<and> distinct (past_positions (fst (session g p cs)))"
proof -
  obtain r self p1 where i: "BeltProbeHelper_init g p = (r, self, p1)"
    by (cases "BeltProbeHelper_init g p") auto
  have "history_ok self" using past_init [of g p] i by (simp add: history_ok_def)
  then have "history_ok (fst (run_commands cs self p1))" by (rule history_ok_run_commands)
  then show ?thesis using i by (simp add: session_def history_ok_def)
qed

section \<open>The next position\<close>

lemma Min_strict_sorted: "sorted l \<Longrightarrow> l \<noteq> [] \<Longrightarrow> Min (set l) = hd (l :: real list)"
  by (cases l) (auto intro!: Min_eqI)

lemma Max_strict_sorted:
  assumes "sorted l" "l \<noteq> []"
  shows "Max (set l) = last (l :: real list)"
proof (rule Max_eqI)
  show "finite (set l)" by simp
  show "last l \<in> set l" using assms(2) by simp
  fix v assume "v \<in> set l"
  then obtain j where j: "j < length l" "v = l ! j" by (auto simp: in_set_conv_nth)
  have "l ! j \<le> l ! (length l - 1)"
    using assms(1) j(1) by (intro sorted_nth_mono) auto
  then show "v \<le> last l" using j(2) assms(2) by (simp add: last_conv_nth)
qed

lemma filter_above_nth:
  assumes "sorted_wrt (<) xs" "i < length xs"
  shows "filter (\<lambda>v. xs ! i < v) xs = drop (Suc i) (xs :: real list)"
proof -
  have xs: "xs = take i xs @ xs ! i # drop (Suc i) xs"
    using assms(2) by (rule id_take_nth_drop)
  have sw: "sorted_wrt (<) (take i xs @ xs ! i # drop (Suc i) xs)"
    using assms(1) xs by simp
  have lo: "\<forall>v \<in> set (take i xs). v < xs ! i" and hi: "\<forall>v \<in> set (drop (Suc i) xs). xs ! i < v"
    using sw by (auto simp: sorted_wrt_append)
  have "filter (\<lambda>v. xs ! i < v) (take i xs @ xs ! i # drop (Suc i) xs) = drop (Suc i) xs"
    using lo hi by (auto simp: filter_empty_conv)
  then show ?thesis using xs by simp
qed

lemma filter_below_nth:
  assumes "sorted_wrt (<) xs" "i < length xs"
  shows "filter (\<lambda>v. v < xs ! i) xs = take i (xs :: real list)"
proof -
  have xs: "xs = take i xs @ xs ! i # drop (Suc i) xs"
    using assms(2) by (rule id_take_nth_drop)
  have sw: "sorted_wrt (<) (take i xs @ xs ! i # drop (Suc i) xs)"
    using assms(1) xs by simp
  have lo: "\<forall>v \<in> set (take i xs). v < xs ! i" and hi: "\<forall>v \<in> set (drop (Suc i) xs). xs ! i < v"
    using sw by (auto simp: sorted_wrt_append)
  have "filter (\<lambda>v. v < xs ! i) (take i xs @ xs ! i # drop (Suc i) xs) = take i xs"
    using lo hi by (auto simp: filter_empty_conv)
  then show ?thesis using xs by simp
qed

lemma filter_insert_skip:
  assumes "\<not> P y"
  shows "filter P (take i xs @ y # drop i xs) = filter P xs"
proof -
  have "filter P (take i xs @ y # drop i xs) = filter P (take i xs) @ filter P (drop i xs)"
    using assms by simp
  also have "\<dots> = filter P (take i xs @ drop i xs)" by (simp only: filter_append)
  also have "\<dots> = filter P xs" by (simp only: append_take_drop_id)
  finally show ?thesis .
qed

lemma testy_insert_shape:
  assumes "sorted pp" "testy_insert pp y = (i, pp')"
  shows "i < length pp'" and "pp' ! i = y"
    and "filter (\<lambda>v. y < v) pp' = filter (\<lambda>v. y < v) pp"
    and "filter (\<lambda>v. v < y) pp' = filter (\<lambda>v. v < y) pp"
proof -
  have i: "i = bisect_left pp y"
    using assms(2) by (auto simp: testy_insert_def Let_def split: if_splits)
  have le: "i \<le> length pp" using bisect_left_spec(1) [OF assms(1)] i by simp
  have pp': "pp' = (if i \<ge> length pp \<or> pp ! i \<noteq> y then take i pp @ y # drop i pp else pp)"
    using assms(2) i by (auto simp: testy_insert_def Let_def list_insert_def split: if_splits)
  show "i < length pp'" using pp' le by auto
  show "pp' ! i = y" using pp' le by (auto simp: nth_append)
  show "filter (\<lambda>v. y < v) pp' = filter (\<lambda>v. y < v) pp"
    using pp' filter_insert_skip [of "\<lambda>v. y < v" y i pp] by (cases "i \<ge> length pp \<or> pp ! i \<noteq> y") simp_all
  show "filter (\<lambda>v. v < y) pp' = filter (\<lambda>v. v < y) pp"
    using pp' filter_insert_skip [of "\<lambda>v. v < y" y i pp] by (cases "i \<ge> length pp \<or> pp ! i \<noteq> y") simp_all
qed

lemma testy_insert_neighbours:
  assumes "sorted pp" "distinct pp" "testy_insert pp y = (i, pp')"
  shows "nearest_above pp y = (if int i < int (length pp') - 1 then Some (pp' ! (i + 1)) else None)"
    and "nearest_below pp y = (if i > 0 then Some (pp' ! (i - 1)) else None)"
proof -
  note sh = testy_insert_shape [OF assms(1,3)]
  have ss: "sorted_wrt (<) pp'"
    using strict_sorted_testy_insert [OF assms(1,2), of y] assms(3)
    by (simp add: strict_sorted_iff)
  have up: "filter (\<lambda>v. y < v) pp = drop (Suc i) pp'"
    using filter_above_nth [OF ss sh(1)] sh(2,3) by simp
  have dn: "filter (\<lambda>v. v < y) pp = take i pp'"
    using filter_below_nth [OF ss sh(1)] sh(2,4) by simp
  have sd: "sorted (drop (Suc i) pp')" and st: "sorted (take i pp')"
    using ss by (simp_all add: strict_sorted_iff)
  show "nearest_above pp y = (if int i < int (length pp') - 1 then Some (pp' ! (i + 1)) else None)"
  proof (cases "Suc i < length pp'")
    case True
    then have "drop (Suc i) pp' \<noteq> []" by simp
    then show ?thesis
      using True sd by (simp add: nearest_above_def up Min_strict_sorted hd_drop_conv_nth)
  next
    case False
    then show ?thesis using sh(1) by (simp add: nearest_above_def up)
  qed
  show "nearest_below pp y = (if i > 0 then Some (pp' ! (i - 1)) else None)"
  proof (cases "i > 0")
    case True
    then have "take i pp' \<noteq> []" using sh(1) by auto
    then show ?thesis
      using True st sh(1) by (simp add: nearest_below_def dn Max_strict_sorted last_conv_nth min_def)
  next
    case False
    then show ?thesis by (simp add: nearest_below_def dn)
  qed
qed

lemma nearest_above_gt: "nearest_above pp y = Some b \<Longrightarrow> y < b"
proof -
  assume a: "nearest_above pp y = Some b"
  then have ne: "filter (\<lambda>v. y < v) pp \<noteq> []" and b: "b = Min (set (filter (\<lambda>v. y < v) pp))"
    by (auto simp: nearest_above_def Let_def split: if_splits)
  have "b \<in> set (filter (\<lambda>v. y < v) pp)"
    unfolding b using ne by (intro Min_in) (auto simp: filter_empty_conv)
  then show ?thesis by simp
qed

lemma nearest_below_lt: "nearest_below pp y = Some b \<Longrightarrow> b < y"
proof -
  assume a: "nearest_below pp y = Some b"
  then have ne: "filter (\<lambda>v. v < y) pp \<noteq> []" and b: "b = Max (set (filter (\<lambda>v. v < y) pp))"
    by (auto simp: nearest_below_def Let_def split: if_splits)
  have "b \<in> set (filter (\<lambda>v. v < y) pp)"
    unfolding b using ne by (intro Max_in) (auto simp: filter_empty_conv)
  then show ?thesis by simp
qed

lemma next_y_pos_plus:
  "param_Y g = Some ''+'' \<Longrightarrow>
   testy_next_y_pos pp i y g = Inr (min ((bound_after pp i + y) / 2) (y + BISECT_MAX))"
  by (simp add: testy_next_y_pos_def bound_after_def Let_def)

lemma next_y_pos_plus_plus:
  "param_Y g = Some ''++'' \<Longrightarrow>
   testy_next_y_pos pp i y g = Inr (min (bound_after pp i) (y + BISECT_MAX))"
  by (simp add: testy_next_y_pos_def bound_after_def Let_def)

lemma next_y_pos_minus:
  "param_Y g = Some ''-'' \<Longrightarrow>
   testy_next_y_pos pp i y g = Inr (max ((bound_before pp i + y) / 2) (y - BISECT_MAX))"
  by (simp add: testy_next_y_pos_def bound_before_def Let_def)

lemma next_y_pos_minus_minus:
  "param_Y g = Some ''--'' \<Longrightarrow>
   testy_next_y_pos pp i y g = Inr (max (bound_before pp i) (y - BISECT_MAX))"
  by (simp add: testy_next_y_pos_def bound_before_def Let_def)

lemma next_y_pos_offset:
  "param_Y g = Some req \<Longrightarrow> req \<noteq> ''+'' \<Longrightarrow> req \<noteq> ''++'' \<Longrightarrow> req \<noteq> ''-'' \<Longrightarrow> req \<noteq> ''--'' \<Longrightarrow>
   param_Y_float g = Some d \<Longrightarrow> testy_next_y_pos pp i y g = Inr (y + d)"
  by (simp add: testy_next_y_pos_def)

lemma bounds_are_neighbours:
  assumes "sorted pp" "distinct pp" "testy_insert pp y = (i, pp')"
  shows "bound_after pp' i = upper_bound pp y" and "bound_before pp' i = lower_bound pp y"
  using testy_insert_neighbours [OF assms]
  by (auto simp: bound_after_def bound_before_def upper_bound_def lower_bound_def)

lemma testy_insert_1_3: "testy_insert [1, 3] 2 = (1, [1, 2, 3])"
  by (simp add: testy_insert_def bisect_left_def bisect_left_loop.simps list_insert_def)

lemma testy_insert_empty: "testy_insert [] y = (0, [y])"
  by (simp add: testy_insert_def bisect_left_def bisect_left_loop.simps list_insert_def)

text \<open>
  C1, as amended. With a sorted history without duplicates, the candidate of \<^verbatim>\<open>++\<close> is the
  smaller of the current value plus \<open>BISECT_MAX\<close> and the upper bound, which is the nearest
  stored position strictly above the current value, or the sentinel 9999999999999.9 when
  there is none; the sentinel does not bind as long as the current value plus
  \<open>BISECT_MAX\<close> does not exceed it. The candidate of \<^verbatim>\<open>--\<close> is the mirror image. For a
  number \<open>d\<close> the candidate is the current value plus \<open>d\<close>, whatever the history holds.
\<close>

theorem testy_coarse_step_and_offset:
  assumes "sorted pp" and "distinct pp"
  shows "(param_Y g = Some ''++'' \<longrightarrow>
            testy_candidate pp y g = Inr (min (y + BISECT_MAX) (upper_bound pp y)) \<and>
            (y + BISECT_MAX \<le> 9999999999999.9 \<longrightarrow>
               testy_candidate pp y g = Inr (coarse_up_claimed pp y))) \<and>
         (param_Y g = Some ''--'' \<longrightarrow>
            testy_candidate pp y g = Inr (max (y - BISECT_MAX) (lower_bound pp y)) \<and>
            (- 9999999999999.9 \<le> y - BISECT_MAX \<longrightarrow>
               testy_candidate pp y g = Inr (coarse_down_claimed pp y))) \<and>
         (\<forall>req d. param_Y g = Some req \<and> req \<noteq> ''+'' \<and> req \<noteq> ''++'' \<and> req \<noteq> ''-'' \<and> req \<noteq> ''--'' \<and>
            param_Y_float g = Some d \<longrightarrow> testy_candidate pp y g = Inr (y + d))"
proof -
  obtain i pp' where ti: "testy_insert pp y = (i, pp')"
    by (cases "testy_insert pp y") auto
  note nb = bounds_are_neighbours [OF assms ti]
  have c: "testy_candidate pp y g = testy_next_y_pos pp' i y g"
    by (simp add: testy_candidate_def ti)
  have up: "param_Y g = Some ''++'' \<Longrightarrow>
      testy_candidate pp y g = Inr (min (y + BISECT_MAX) (upper_bound pp y))"
    using next_y_pos_plus_plus [of g pp' i y] nb(1) c by (simp add: min.commute)
  have up': "y + BISECT_MAX \<le> 9999999999999.9 \<Longrightarrow>
      min (y + BISECT_MAX) (upper_bound pp y) = coarse_up_claimed pp y"
    by (simp add: upper_bound_def coarse_up_claimed_def split: option.splits)
  have dn: "param_Y g = Some ''--'' \<Longrightarrow>
      testy_candidate pp y g = Inr (max (y - BISECT_MAX) (lower_bound pp y))"
    using next_y_pos_minus_minus [of g pp' i y] nb(2) c by (simp add: max.commute)
  have dn': "- 9999999999999.9 \<le> y - BISECT_MAX \<Longrightarrow>
      max (y - BISECT_MAX) (lower_bound pp y) = coarse_down_claimed pp y"
    by (simp add: lower_bound_def coarse_down_claimed_def split: option.splits)
  have off: "\<And>req d. param_Y g = Some req \<Longrightarrow> req \<noteq> ''+'' \<Longrightarrow> req \<noteq> ''++'' \<Longrightarrow> req \<noteq> ''-'' \<Longrightarrow>
      req \<noteq> ''--'' \<Longrightarrow> param_Y_float g = Some d \<Longrightarrow> testy_candidate pp y g = Inr (y + d)"
    using next_y_pos_offset [of g _ _ pp' i y] c by simp
  show ?thesis using up up' dn dn' off by simp
qed

theorem testy_coarse_step_and_offset_witness:
  "sorted [1, 3 :: real] \<and> distinct [1, 3 :: real] \<and>
   testy_candidate [1, 3] 2 (testy_cmd ''++'' None) = Inr 2.2 \<and>
   testy_candidate [1, 3] 2 (testy_cmd ''--'' None) = Inr 1.8 \<and>
   testy_candidate [1, 3] 2 (testy_cmd ''-0.1'' (Some (- 0.1))) = Inr 1.9"
  using testy_coarse_step_and_offset [of "[1, 3]" "testy_cmd ''++'' None" 2]
    testy_coarse_step_and_offset [of "[1, 3]" "testy_cmd ''--'' None" 2]
    testy_coarse_step_and_offset [of "[1, 3]" "testy_cmd ''-0.1'' (Some (- 0.1))" 2]
  by (simp add: testy_cmd_def BISECT_MAX_def upper_bound_def lower_bound_def nearest_above_def nearest_below_def)

text \<open>
  C1 as stated fails where the sentinel binds: with no stored neighbour and the current
  value at \<open>10 ^ 13\<close>, \<^verbatim>\<open>++\<close> gives the sentinel, which is below the current value, not
  the current value plus the fixed step.
\<close>

theorem testy_coarse_sentinel_counterexample:
  "testy_candidate [] (10 ^ 13) (testy_cmd ''++'' None) = Inr 9999999999999.9 \<and>
   coarse_up_claimed [] (10 ^ 13) = 10 ^ 13 + 0.2 \<and>
   testy_candidate [] (10 ^ 13) (testy_cmd ''++'' None) \<noteq> Inr (coarse_up_claimed [] (10 ^ 13))"
  by (simp add: testy_candidate_def testy_insert_empty testy_next_y_pos_def testy_cmd_def
      BISECT_MAX_def coarse_up_claimed_def nearest_above_def)

text \<open>
  C2, as amended. With \<open>bound\<close> the entry after the insertion index, or the sentinel when
  there is none, the candidate of \<^verbatim>\<open>+\<close> is the smaller of the midpoint between the current
  value and \<open>bound\<close>, and the current value plus \<open>BISECT_MAX\<close>; the candidate of
  \<^verbatim>\<open>-\<close> is the larger of the midpoint to the entry before the index (or the negative
  sentinel), and the current value minus \<open>BISECT_MAX\<close>. In a sorted history without
  duplicates the two bounds are the nearest stored positions above and below.
\<close>

theorem testy_fine_step:
  assumes "testy_insert pp y = (i, pp')"
  shows "(param_Y g = Some ''+'' \<longrightarrow>
            testy_next_y_pos pp' i y g = Inr (min ((bound_after pp' i + y) / 2) (y + BISECT_MAX))) \<and>
         (param_Y g = Some ''-'' \<longrightarrow>
            testy_next_y_pos pp' i y g = Inr (max ((bound_before pp' i + y) / 2) (y - BISECT_MAX))) \<and>
         (sorted pp \<and> distinct pp \<longrightarrow>
            bound_after pp' i = upper_bound pp y \<and> bound_before pp' i = lower_bound pp y)"
  using next_y_pos_plus [of g pp' i y] next_y_pos_minus [of g pp' i y]
    bounds_are_neighbours [OF _ _ assms]
  by simp

theorem testy_fine_step_witness:
  "testy_insert [1, 3] 2 = (1, [1, 2, 3]) \<and> sorted [1, 3 :: real] \<and> distinct [1, 3 :: real] \<and>
   testy_next_y_pos [1, 2, 3] 1 2 (testy_cmd ''+'' None) = Inr 2.2 \<and>
   testy_next_y_pos [1, 2, 3] 1 2 (testy_cmd ''-'' None) = Inr 1.8 \<and>
   bound_after [1, 2, 3] 1 = 3 \<and> upper_bound [1, 3] 2 = 3 \<and>
   bound_before [1, 2, 3] 1 = 1 \<and> lower_bound [1, 3] 2 = 1"
  using testy_fine_step [OF testy_insert_1_3, of "testy_cmd ''+'' None"]
    testy_fine_step [OF testy_insert_1_3, of "testy_cmd ''-'' None"]
  by (simp add: testy_insert_1_3 testy_cmd_def BISECT_MAX_def bound_after_def bound_before_def)

text \<open>
  C2 as stated fails: with history 1, 3 and current value 2, \<^verbatim>\<open>+\<close> gives 2.2, the
  current value plus \<open>BISECT_MAX\<close>, not the midpoint 2.5 that the smaller of midpoint and
  bound would be.
\<close>

theorem testy_fine_step_counterexample:
  "testy_insert [1, 3] 2 = (1, [1, 2, 3]) \<and>
   testy_next_y_pos [1, 2, 3] 1 2 (testy_cmd ''+'' None) = Inr 2.2 \<and>
   fine_up_claimed [1, 2, 3] 1 2 = 2.5 \<and>
   testy_next_y_pos [1, 2, 3] 1 2 (testy_cmd ''+'' None) \<noteq> Inr (fine_up_claimed [1, 2, 3] 1 2)"
  by (simp add: testy_insert_1_3 testy_next_y_pos_def testy_cmd_def BISECT_MAX_def
      fine_up_claimed_def bound_after_def)

section \<open>The direction of a step, in double arithmetic\<close>

subsection \<open>Rounding is monotone and fixes the doubles\<close>

lemma find_exponent_lower: "- 1074 \<le> find_exponent n x"
  by (induction n) auto

lemma find_exponent_upper: "find_exponent n x \<le> int n - 1074"
  by (induction n) auto

lemma find_exponent_ge:
  "- 1074 < find_exponent n x \<Longrightarrow> 2 powi (find_exponent n x + 52) \<le> \<bar>x\<bar>"
  by (induction n) (auto split: if_splits simp: algebra_simps)

lemma find_exponent_lt:
  "find_exponent n x < int n - 1074 \<Longrightarrow> \<bar>x\<bar> < 2 powi (find_exponent n x + 53)"
proof (induction n)
  case 0
  then show ?case by simp
next
  case (Suc n)
  show ?case
  proof (cases "2 powi (int n - 1021) \<le> \<bar>x\<bar>")
    case True
    then show ?thesis using Suc.prems by simp
  next
    case False
    then have fe: "find_exponent (Suc n) x = find_exponent n x" by simp
    show ?thesis
    proof (cases "find_exponent n x < int n - 1074")
      case True
      then show ?thesis using Suc.IH fe by simp
    next
      case False
      then have "find_exponent n x = int n - 1074"
        using find_exponent_upper [of n x] by simp
      then have e: "find_exponent n x + 53 = int n - 1021" by simp
      have "\<bar>x\<bar> < 2 powi (int n - 1021)"
        using \<open>\<not> 2 powi (int n - 1021) \<le> \<bar>x\<bar>\<close> by simp
      then show ?thesis unfolding fe e .
    qed
  qed
qed

lemma find_exponent_mono:
  "\<bar>x\<bar> \<le> \<bar>y\<bar> \<Longrightarrow> find_exponent n x \<le> find_exponent n y"
proof (induction n)
  case 0
  then show ?case by simp
next
  case (Suc n)
  then show ?case
    using find_exponent_upper [of n x] by auto
qed

lemma round_half_even_of_int [simp]: "round_half_even (of_int n) = n"
  by (simp add: round_half_even_def)

lemma round_half_even_bounds:
  "\<lfloor>r\<rfloor> \<le> round_half_even r" "round_half_even r \<le> \<lfloor>r\<rfloor> + 1"
  by (simp_all add: round_half_even_def Let_def)

lemma round_half_even_mono:
  assumes "r \<le> s"
  shows "round_half_even r \<le> round_half_even s"
proof (cases "\<lfloor>r\<rfloor> = \<lfloor>s\<rfloor>")
  case True
  then show ?thesis using assms
    by (auto simp: round_half_even_def Let_def)
next
  case False
  then have "\<lfloor>r\<rfloor> + 1 \<le> \<lfloor>s\<rfloor>" using assms floor_mono [of r s] by linarith
  then show ?thesis
    using round_half_even_bounds(2) [of r] round_half_even_bounds(1) [of s] by linarith
qed

lemma round_half_even_minus: "round_half_even (- r) = - round_half_even r"
proof (cases "r = of_int \<lfloor>r\<rfloor>")
  case True
  define n where "n = \<lfloor>r\<rfloor>"
  have r: "r = of_int n" using True by (simp add: n_def)
  have "round_half_even (of_int (- n)) = - n" by (rule round_half_even_of_int)
  then show ?thesis unfolding r by simp
next
  case False
  then have lt: "of_int \<lfloor>r\<rfloor> < r" by linarith
  have lt2: "r < of_int \<lfloor>r\<rfloor> + 1" by linarith
  have f: "\<lfloor>- r\<rfloor> = - \<lfloor>r\<rfloor> - 1"
  proof (rule floor_unique)
    show "of_int (- \<lfloor>r\<rfloor> - 1) \<le> - r" using lt2 by linarith
    show "- r < of_int (- \<lfloor>r\<rfloor> - 1) + 1" using lt by linarith
  qed
  show ?thesis
    using lt f by (auto simp: round_half_even_def Let_def)
qed

lemma ulp_pos: "0 < ulp x"
  by (simp add: ulp_def)

lemma double_exponent_minus: "double_exponent (- x) = double_exponent x"
proof -
  have "find_exponent n (- x) = find_exponent n x" for n
    by (induction n) auto
  then show ?thesis by (simp add: double_exponent_def)
qed

lemma ulp_minus: "ulp (- x) = ulp x"
  by (simp add: ulp_def double_exponent_minus)

lemma round_double_minus: "round_double (- x) = - round_double x"
  by (simp add: round_double_def ulp_minus round_half_even_minus)

lemma round_double_zero [simp]: "round_double 0 = 0"
  using round_half_even_of_int [of 0] by (simp add: round_double_def del: round_half_even_of_int)

lemma double_exponent_bounds: "- 1074 \<le> double_exponent x" "double_exponent x \<le> 971"
  using find_exponent_lower [of 2045 x] find_exponent_upper [of 2045 x]
  by (simp_all add: double_exponent_def)

lemma double_exponent_ge:
  "- 1074 < double_exponent x \<Longrightarrow> 2 powi (double_exponent x + 52) \<le> \<bar>x\<bar>"
  unfolding double_exponent_def by (rule find_exponent_ge)

lemma double_exponent_lt:
  "double_exponent x < 971 \<Longrightarrow> \<bar>x\<bar> < 2 powi (double_exponent x + 53)"
  unfolding double_exponent_def using find_exponent_lt [of 2045 x] by simp

lemma double_exponent_mono: "\<bar>x\<bar> \<le> \<bar>y\<bar> \<Longrightarrow> double_exponent x \<le> double_exponent y"
  unfolding double_exponent_def by (rule find_exponent_mono)

lemma double_exponent_eqI:
  assumes "- 1074 < e" "e \<le> 971" "2 powi (e + 52) \<le> \<bar>x\<bar>" "\<bar>x\<bar> < 2 powi (e + 53)"
  shows "double_exponent x = e"
proof (rule antisym)
  show "double_exponent x \<le> e"
  proof (rule ccontr)
    assume "\<not> double_exponent x \<le> e"
    then have gt: "e < double_exponent x" by simp
    then have "2 powi (double_exponent x + 52) \<le> \<bar>x\<bar>"
      using assms(1) by (intro double_exponent_ge) simp
    moreover have "(2::real) powi (e + 53) \<le> 2 powi (double_exponent x + 52)"
      using gt by (intro power_int_increasing) simp_all
    ultimately show False using assms(4) by linarith
  qed
  show "e \<le> double_exponent x"
  proof (rule ccontr)
    assume "\<not> e \<le> double_exponent x"
    then have lt: "double_exponent x < e" by simp
    then have "\<bar>x\<bar> < 2 powi (double_exponent x + 53)"
      using assms(2) by (intro double_exponent_lt) simp
    moreover have "(2::real) powi (double_exponent x + 53) \<le> 2 powi (e + 52)"
      using lt by (intro power_int_increasing) simp_all
    ultimately show False using assms(3) by linarith
  qed
qed

lemma round_double_nonneg_mono:
  assumes "0 \<le> x" "x \<le> y"
  shows "round_double x \<le> round_double y"
proof -
  define ex where "ex = double_exponent x"
  define ey where "ey = double_exponent y"
  have le: "ex \<le> ey" unfolding ex_def ey_def using assms by (intro double_exponent_mono) simp
  have ux: "ulp x = 2 powi ex" and uy: "ulp y = 2 powi ey" by (simp_all add: ulp_def ex_def ey_def)
  show ?thesis
  proof (cases "ex = ey")
    case True
    then have u: "ulp x = ulp y" using ux uy by simp
    have "x / ulp y \<le> y / ulp y" using assms(2) ulp_pos [of y] by (simp add: divide_right_mono)
    then have "round_half_even (x / ulp y) \<le> round_half_even (y / ulp y)"
      by (rule round_half_even_mono)
    then show ?thesis using ulp_pos [of y] by (simp add: round_double_def u)
  next
    case False
    then have lt: "ex < ey" using le by simp
    define B :: real where "B = 2 powi (ey + 52)"
    have ey_gt: "- 1074 < ey" using lt double_exponent_bounds(1) [of x] by (simp add: ex_def)
    have By: "B \<le> y"
      using double_exponent_ge [of y] ey_gt assms by (simp add: B_def ey_def)
    have ex_lt: "ex < 971" using lt double_exponent_bounds(2) [of y] by (simp add: ey_def)
    have "x < 2 powi (ex + 53)"
      using double_exponent_lt [of x] ex_lt assms by (simp add: ex_def)
    moreover have "(2::real) powi (ex + 53) \<le> 2 powi (ey + 52)"
      using lt by (intro power_int_increasing) simp_all
    ultimately have xB: "x \<le> B" by (simp add: B_def)
    have Bx: "B / ulp x = of_int (2 ^ nat (ey + 52 - ex))"
    proof -
      have "B / ulp x = 2 powi (ey + 52 - ex)"
        by (simp add: B_def ux power_int_diff)
      also have "\<dots> = 2 ^ nat (ey + 52 - ex)"
        using lt by (simp add: power_int_def)
      finally show ?thesis by simp
    qed
    have By': "B / ulp y = of_int (2 ^ 52)"
      by (simp add: B_def uy power_int_add)
    have "round_half_even (x / ulp x) \<le> round_half_even (B / ulp x)"
      using xB ulp_pos [of x] by (intro round_half_even_mono) (simp add: divide_right_mono)
    then have "of_int (round_half_even (x / ulp x)) \<le> B / ulp x"
      unfolding Bx round_half_even_of_int by simp
    then have 1: "round_double x \<le> B"
      using ulp_pos [of x] by (simp add: round_double_def field_simps)
    have "round_half_even (B / ulp y) \<le> round_half_even (y / ulp y)"
      using By ulp_pos [of y] by (intro round_half_even_mono) (simp add: divide_right_mono)
    then have "B / ulp y \<le> of_int (round_half_even (y / ulp y))"
      unfolding By' round_half_even_of_int by simp
    then have 2: "B \<le> round_double y"
      using ulp_pos [of y] by (simp add: round_double_def field_simps)
    show ?thesis using 1 2 by simp
  qed
qed

lemma round_double_nonneg: "0 \<le> x \<Longrightarrow> 0 \<le> round_double x"
  using round_double_nonneg_mono [of 0 x] by simp

lemma round_double_mono:
  assumes "x \<le> y"
  shows "round_double x \<le> round_double y"
proof (cases "0 \<le> x")
  case True
  then show ?thesis using assms by (rule round_double_nonneg_mono)
next
  case False
  then have xn: "x < 0" by simp
  show ?thesis
  proof (cases "0 \<le> y")
    case True
    have "round_double x = - round_double (- x)" by (simp add: round_double_minus)
    moreover have "0 \<le> round_double (- x)" using xn by (intro round_double_nonneg) simp
    moreover have "0 \<le> round_double y" using True by (rule round_double_nonneg)
    ultimately show ?thesis by simp
  next
    case False
    then have "round_double (- y) \<le> round_double (- x)"
      using assms by (intro round_double_nonneg_mono) simp_all
    then show ?thesis by (simp add: round_double_minus)
  qed
qed

lemma power_int_two_less:
  assumes "(2::real) powi a \<le> x" "x < 2 powi b"
  shows "a < b"
proof (rule ccontr)
  assume "\<not> a < b"
  then have "(2::real) powi b \<le> 2 powi a" by (intro power_int_increasing) simp_all
  then show False using assms by linarith
qed

lemma round_double_eq:
  "round_double x = 2 powi double_exponent x *
     of_int (round_half_even (x / 2 powi double_exponent x))"
  by (simp add: round_double_def ulp_def)

lemma round_double_fixI:
  assumes "x / 2 powi double_exponent x = of_int n"
  shows "round_double x = x"
proof -
  have "round_double x = 2 powi double_exponent x * of_int n"
    unfolding round_double_eq assms round_half_even_of_int ..
  also have "\<dots> = 2 powi double_exponent x * (x / 2 powi double_exponent x)"
    using assms by simp
  also have "\<dots> = x" by simp
  finally show ?thesis .
qed

lemma round_double_fixD:
  assumes "round_double x = x"
  shows "x / 2 powi double_exponent x = of_int (round_half_even (x / 2 powi double_exponent x))"
proof -
  have "x = 2 powi double_exponent x * of_int (round_half_even (x / 2 powi double_exponent x))"
    using assms round_double_eq [of x] by simp
  then have "x / 2 powi double_exponent x =
      2 powi double_exponent x * of_int (round_half_even (x / 2 powi double_exponent x))
        / 2 powi double_exponent x"
    by simp
  then show ?thesis by simp
qed

lemma double_exponent_twice:
  "double_exponent (2 * y) = double_exponent y \<or> double_exponent (2 * y) = double_exponent y + 1"
proof -
  define e where "e = double_exponent y"
  define e' where "e' = double_exponent (2 * y)"
  have le: "e \<le> e'" unfolding e_def e'_def by (intro double_exponent_mono) simp
  have "e' \<le> e + 1"
  proof (rule ccontr)
    assume "\<not> e' \<le> e + 1"
    then have gt: "e + 2 \<le> e'" by simp
    have "- 1074 < e'" using gt double_exponent_bounds(1) [of y] by (simp add: e_def)
    then have 1: "2 powi (e' + 52) \<le> \<bar>2 * y\<bar>"
      using double_exponent_ge [of "2 * y"] by (simp add: e'_def)
    have "e < 971" using gt double_exponent_bounds(2) [of "2 * y"] by (simp add: e'_def)
    then have "\<bar>y\<bar> < 2 powi (e + 53)"
      using double_exponent_lt [of y] by (simp add: e_def)
    then have "\<bar>2 * y\<bar> < 2 * 2 powi (e + 53)" by simp
    also have "\<dots> = 2 powi (e + 54)"
      using power_int_add [of "2::real" "e + 53" 1] by (simp add: add.commute)
    finally have "e' + 52 < e + 54" using 1 power_int_two_less by blast
    then show False using gt by simp
  qed
  then show ?thesis using le by (auto simp: e_def e'_def)
qed

lemma round_double_twice:
  assumes "round_double y = y"
  shows "round_double (2 * y) = 2 * y"
proof -
  define n where "n = round_half_even (y / 2 powi double_exponent y)"
  have yn: "y / 2 powi double_exponent y = of_int n"
    unfolding n_def using assms by (rule round_double_fixD)
  from double_exponent_twice [of y] show ?thesis
  proof
    assume e: "double_exponent (2 * y) = double_exponent y"
    have "2 * y / 2 powi double_exponent (2 * y) = of_int (2 * n)"
      using yn by (simp add: e)
    then show ?thesis by (rule round_double_fixI)
  next
    assume e: "double_exponent (2 * y) = double_exponent y + 1"
    have "(2::real) powi (double_exponent y + 1) = 2 powi double_exponent y * 2"
      by (simp add: power_int_add)
    then have "2 * y / 2 powi double_exponent (2 * y) = of_int n"
      using yn by (simp add: e)
    then show ?thesis by (rule round_double_fixI)
  qed
qed

subsection \<open>The candidate in double arithmetic\<close>

lemma candidate_double_up:
  assumes "sorted pp" "distinct pp"
  shows "param_Y g = Some ''++'' \<Longrightarrow> testy_candidate_double pp y g =
           Inr (min (upper_bound_double pp y) (round_double (y + round_double BISECT_MAX)))"
    and "param_Y g = Some ''+'' \<Longrightarrow> testy_candidate_double pp y g =
           Inr (min (round_double (round_double (upper_bound_double pp y + y) / 2))
                    (round_double (y + round_double BISECT_MAX)))"
proof -
  obtain i pp' where ti: "testy_insert pp y = (i, pp')"
    by (cases "testy_insert pp y") auto
  note nb = testy_insert_neighbours(1) [OF assms ti]
  show "param_Y g = Some ''++'' \<Longrightarrow> testy_candidate_double pp y g =
           Inr (min (upper_bound_double pp y) (round_double (y + round_double BISECT_MAX)))"
    using nb by (simp add: testy_candidate_double_def ti testy_next_y_pos_double_def
        upper_bound_double_def Let_def)
  show "param_Y g = Some ''+'' \<Longrightarrow> testy_candidate_double pp y g =
           Inr (min (round_double (round_double (upper_bound_double pp y + y) / 2))
                    (round_double (y + round_double BISECT_MAX)))"
    using nb by (simp add: testy_candidate_double_def ti testy_next_y_pos_double_def
        upper_bound_double_def Let_def)
qed

lemma candidate_double_down:
  assumes "sorted pp" "distinct pp"
  shows "param_Y g = Some ''--'' \<Longrightarrow> testy_candidate_double pp y g =
           Inr (max (lower_bound_double pp y) (round_double (y - round_double BISECT_MAX)))"
    and "param_Y g = Some ''-'' \<Longrightarrow> testy_candidate_double pp y g =
           Inr (max (round_double (round_double (lower_bound_double pp y + y) / 2))
                    (round_double (y - round_double BISECT_MAX)))"
proof -
  obtain i pp' where ti: "testy_insert pp y = (i, pp')"
    by (cases "testy_insert pp y") auto
  note nb = testy_insert_neighbours(2) [OF assms ti]
  show "param_Y g = Some ''--'' \<Longrightarrow> testy_candidate_double pp y g =
           Inr (max (lower_bound_double pp y) (round_double (y - round_double BISECT_MAX)))"
    using nb by (simp add: testy_candidate_double_def ti testy_next_y_pos_double_def
        lower_bound_double_def Let_def)
  show "param_Y g = Some ''-'' \<Longrightarrow> testy_candidate_double pp y g =
           Inr (max (round_double (round_double (lower_bound_double pp y + y) / 2))
                    (round_double (y - round_double BISECT_MAX)))"
    using nb by (simp add: testy_candidate_double_def ti testy_next_y_pos_double_def
        lower_bound_double_def Let_def)
qed

lemma step_double_nonneg: "0 \<le> round_double BISECT_MAX"
  by (rule round_double_nonneg) (simp add: BISECT_MAX_def)

lemma step_up_ge: "round_double y = y \<Longrightarrow> y \<le> round_double (y + round_double BISECT_MAX)"
  using round_double_mono [of y "y + round_double BISECT_MAX"] step_double_nonneg by simp

lemma step_down_le: "round_double y = y \<Longrightarrow> round_double (y - round_double BISECT_MAX) \<le> y"
  using round_double_mono [of "y - round_double BISECT_MAX" y] step_double_nonneg by simp

lemma midpoint_up_ge:
  assumes "round_double y = y" "y \<le> b"
  shows "y \<le> round_double (round_double (b + y) / 2)"
proof -
  have "round_double (2 * y) \<le> round_double (b + y)"
    using assms(2) by (intro round_double_mono) simp
  then have "y \<le> round_double (b + y) / 2"
    using round_double_twice [OF assms(1)] by simp
  then have "round_double y \<le> round_double (round_double (b + y) / 2)"
    by (rule round_double_mono)
  then show ?thesis using assms(1) by simp
qed

lemma midpoint_down_le:
  assumes "round_double y = y" "b \<le> y"
  shows "round_double (round_double (b + y) / 2) \<le> y"
proof -
  have "round_double (b + y) \<le> round_double (2 * y)"
    using assms(2) by (intro round_double_mono) simp
  then have "round_double (b + y) / 2 \<le> y"
    using round_double_twice [OF assms(1)] by simp
  then have "round_double (round_double (b + y) / 2) \<le> round_double y"
    by (rule round_double_mono)
  then show ?thesis using assms(1) by simp
qed

lemma upper_bound_double_gt:
  "nearest_above pp y \<noteq> None \<or> y < round_double 9999999999999.9 \<Longrightarrow> y < upper_bound_double pp y"
  by (auto simp: upper_bound_double_def dest: nearest_above_gt split: option.splits)

lemma lower_bound_double_lt:
  "nearest_below pp y \<noteq> None \<or> - round_double 9999999999999.9 < y \<Longrightarrow> lower_bound_double pp y < y"
  by (auto simp: lower_bound_double_def dest: nearest_below_lt split: option.splits)

lemma de_1: "double_exponent 1 = - 52"
  by (rule double_exponent_eqI) simp_all

lemma de_2: "double_exponent 2 = - 51"
  by (rule double_exponent_eqI) simp_all

lemma rd_1: "round_double 1 = 1"
  by (rule round_double_fixI [where n = "2 ^ 52"]) (simp add: de_1 power_int_minus)

lemma rd_2: "round_double 2 = 2"
  by (rule round_double_fixI [where n = "2 ^ 52"]) (simp add: de_2 power_int_minus)

lemma de_next_1: "double_exponent next_after_one = - 52"
  by (rule double_exponent_eqI) (simp_all add: next_after_one_def)

lemma rd_next_1: "round_double next_after_one = next_after_one"
proof (rule round_double_fixI [where n = "2 ^ 52 + 1"])
  show "next_after_one / 2 powi double_exponent next_after_one = of_int (2 ^ 52 + 1)"
    unfolding de_next_1 by (simp add: next_after_one_def power_int_minus)
qed

lemma de_tie: "double_exponent (next_after_one + 1) = - 51"
  by (rule double_exponent_eqI) (simp_all add: next_after_one_def)

lemma rhe_tie: "round_half_even (2 ^ 52 + 1 / 2) = 2 ^ 52"
proof -
  have f: "\<lfloor>(2 ^ 52 + 1 / 2 :: real)\<rfloor> = 2 ^ 52"
    by (rule floor_unique) simp_all
  show ?thesis unfolding round_half_even_def f Let_def by simp
qed

lemma rd_tie: "round_double (next_after_one + 1) = 2"
proof -
  have q: "(next_after_one + 1) / 2 powi (- 51) = 2 ^ 52 + 1 / 2"
    by (simp add: next_after_one_def power_int_minus)
  have "round_double (next_after_one + 1) =
      2 powi (- 51) * of_int (round_half_even (2 ^ 52 + 1 / 2))"
    unfolding round_double_eq de_tie q ..
  also have "\<dots> = 2" unfolding rhe_tie by (simp add: power_int_minus)
  finally show ?thesis .
qed

lemma testy_insert_adjacent: "testy_insert [1, next_after_one] 1 = (0, [1, next_after_one])"
  by (simp add: testy_insert_def bisect_left_def bisect_left_loop.simps list_insert_def
      next_after_one_def)

lemma de_a0: "double_exponent (10 ^ 13) = - 9"
  by (rule double_exponent_eqI) simp_all

lemma rd_a0: "round_double (10 ^ 13) = 10 ^ 13"
proof (rule round_double_fixI [where n = "512 * 10 ^ 13"])
  show "(10 ^ 13 :: real) / 2 powi double_exponent (10 ^ 13) = of_int (512 * 10 ^ 13)"
    unfolding de_a0 by (simp add: power_int_minus)
qed

lemma de_a1: "double_exponent (10 ^ 13 - 1 / 16) = - 9"
  by (rule double_exponent_eqI) simp_all

lemma rd_a1: "round_double (10 ^ 13 - 1 / 16) = 10 ^ 13 - 1 / 16"
proof (rule round_double_fixI [where n = "512 * 10 ^ 13 - 32"])
  show "(10 ^ 13 - 1 / 16 :: real) / 2 powi double_exponent (10 ^ 13 - 1 / 16) =
      of_int (512 * 10 ^ 13 - 32)"
    unfolding de_a1 by (simp add: power_int_minus)
qed

lemma de_a2: "double_exponent (2 * 10 ^ 13 - 1 / 16) = - 8"
  by (rule double_exponent_eqI) simp_all

lemma rd_a2: "round_double (2 * 10 ^ 13 - 1 / 16) = 2 * 10 ^ 13 - 1 / 16"
proof (rule round_double_fixI [where n = "512 * 10 ^ 13 - 16"])
  show "(2 * 10 ^ 13 - 1 / 16 :: real) / 2 powi double_exponent (2 * 10 ^ 13 - 1 / 16) =
      of_int (512 * 10 ^ 13 - 16)"
    unfolding de_a2 by (simp add: power_int_minus)
qed

lemma de_a3: "double_exponent (10 ^ 13 - 1 / 32) = - 9"
  by (rule double_exponent_eqI) simp_all

lemma rd_a3: "round_double (10 ^ 13 - 1 / 32) = 10 ^ 13 - 1 / 32"
proof (rule round_double_fixI [where n = "512 * 10 ^ 13 - 16"])
  show "(10 ^ 13 - 1 / 32 :: real) / 2 powi double_exponent (10 ^ 13 - 1 / 32) =
      of_int (512 * 10 ^ 13 - 16)"
    unfolding de_a3 by (simp add: power_int_minus)
qed

lemma sentinel_midpoint_below: "round_double (round_double (round_double 9999999999999.9 + 10 ^ 13) / 2) < 10 ^ 13"
proof -
  have "round_double 9999999999999.9 \<le> round_double (10 ^ 13 - 1 / 16)"
    by (rule round_double_mono) simp
  then have "round_double 9999999999999.9 + 10 ^ 13 \<le> 2 * 10 ^ 13 - 1 / 16"
    unfolding rd_a1 by simp
  then have "round_double (round_double 9999999999999.9 + 10 ^ 13) \<le> round_double (2 * 10 ^ 13 - 1 / 16)"
    by (rule round_double_mono)
  then have "round_double (round_double 9999999999999.9 + 10 ^ 13) / 2 \<le> 10 ^ 13 - 1 / 32"
    unfolding rd_a2 by simp
  then have "round_double (round_double (round_double 9999999999999.9 + 10 ^ 13) / 2)
      \<le> round_double (10 ^ 13 - 1 / 32)"
    by (rule round_double_mono)
  then show ?thesis unfolding rd_a3 by simp
qed

text \<open>
  C10, as amended. With a sorted history without duplicates and a current value that is
  a double, \<^verbatim>\<open>+\<close> and \<^verbatim>\<open>++\<close> give a candidate that is not below the current value when
  a stored position lies above it or it is below the sentinel; the candidate equals the
  current value only when rounding absorbs the step, that is when the current value plus
  \<open>BISECT_MAX\<close> rounds to the current value or, for \<^verbatim>\<open>+\<close>, the midpoint to the bound
  does; otherwise it is strictly above. \<^verbatim>\<open>-\<close> and \<^verbatim>\<open>--\<close> are the mirror image.
\<close>

theorem testy_step_direction:
  assumes "sorted pp" and "distinct pp" and "round_double y = y"
  shows "((param_Y g = Some ''+'' \<or> param_Y g = Some ''++'') \<and>
          (nearest_above pp y \<noteq> None \<or> y < round_double 9999999999999.9) \<longrightarrow>
            (\<exists>c. testy_candidate_double pp y g = Inr c \<and> y \<le> c \<and>
               (c = y \<longrightarrow>
                  round_double (y + round_double BISECT_MAX) = y \<or>
                  param_Y g = Some ''+'' \<and>
                  round_double (round_double (upper_bound_double pp y + y) / 2) = y))) \<and>
         ((param_Y g = Some ''-'' \<or> param_Y g = Some ''--'') \<and>
          (nearest_below pp y \<noteq> None \<or> - round_double 9999999999999.9 < y) \<longrightarrow>
            (\<exists>c. testy_candidate_double pp y g = Inr c \<and> c \<le> y \<and>
               (c = y \<longrightarrow>
                  round_double (y - round_double BISECT_MAX) = y \<or>
                  param_Y g = Some ''-'' \<and>
                  round_double (round_double (lower_bound_double pp y + y) / 2) = y)))"
proof (intro conjI impI)
  assume a: "(param_Y g = Some ''+'' \<or> param_Y g = Some ''++'') \<and>
          (nearest_above pp y \<noteq> None \<or> y < round_double 9999999999999.9)"
  then have gt: "y < upper_bound_double pp y" by (intro upper_bound_double_gt) simp
  note s = step_up_ge [OF assms(3)]
  from a have "param_Y g = Some ''+'' \<or> param_Y g = Some ''++''" by simp
  then show "\<exists>c. testy_candidate_double pp y g = Inr c \<and> y \<le> c \<and>
               (c = y \<longrightarrow>
                  round_double (y + round_double BISECT_MAX) = y \<or>
                  param_Y g = Some ''+'' \<and>
                  round_double (round_double (upper_bound_double pp y + y) / 2) = y)"
  proof
    assume p: "param_Y g = Some ''+''"
    have m: "y \<le> round_double (round_double (upper_bound_double pp y + y) / 2)"
      using gt by (intro midpoint_up_ge [OF assms(3)]) simp
    show ?thesis
      unfolding candidate_double_up(2) [OF assms(1,2) p] using p m s
      by (auto simp: min_def)
  next
    assume p: "param_Y g = Some ''++''"
    show ?thesis
      unfolding candidate_double_up(1) [OF assms(1,2) p] using p gt s
      by (auto simp: min_def)
  qed
next
  assume a: "(param_Y g = Some ''-'' \<or> param_Y g = Some ''--'') \<and>
          (nearest_below pp y \<noteq> None \<or> - round_double 9999999999999.9 < y)"
  then have lt: "lower_bound_double pp y < y" by (intro lower_bound_double_lt) simp
  note s = step_down_le [OF assms(3)]
  from a have "param_Y g = Some ''-'' \<or> param_Y g = Some ''--''" by simp
  then show "\<exists>c. testy_candidate_double pp y g = Inr c \<and> c \<le> y \<and>
               (c = y \<longrightarrow>
                  round_double (y - round_double BISECT_MAX) = y \<or>
                  param_Y g = Some ''-'' \<and>
                  round_double (round_double (lower_bound_double pp y + y) / 2) = y)"
  proof
    assume p: "param_Y g = Some ''-''"
    have m: "round_double (round_double (lower_bound_double pp y + y) / 2) \<le> y"
      using lt by (intro midpoint_down_le [OF assms(3)]) simp
    show ?thesis
      unfolding candidate_double_down(2) [OF assms(1,2) p] using p m s
      by (auto simp: max_def)
  next
    assume p: "param_Y g = Some ''--''"
    show ?thesis
      unfolding candidate_double_down(1) [OF assms(1,2) p] using p lt s
      by (auto simp: max_def)
  qed
qed

theorem testy_step_direction_witness:
  "sorted [1, 3 :: real] \<and> distinct [1, 3 :: real] \<and> round_double 2 = 2 \<and>
   nearest_above [1, 3] 2 \<noteq> None \<and> nearest_below [1, 3] 2 \<noteq> None \<and>
   (\<exists>c. testy_candidate_double [1, 3] 2 (testy_cmd ''+'' None) = Inr c \<and> 2 \<le> c) \<and>
   (\<exists>c. testy_candidate_double [1, 3] 2 (testy_cmd ''--'' None) = Inr c \<and> c \<le> 2)"
proof -
  have s: "sorted [1, 3 :: real]" and d: "distinct [1, 3 :: real]" by simp_all
  have a: "nearest_above [1, 3] 2 \<noteq> None" and b: "nearest_below [1, 3] 2 \<noteq> None"
    by (simp_all add: nearest_above_def nearest_below_def)
  show ?thesis
    using testy_step_direction [OF s d rd_2, of "testy_cmd ''+'' None"]
      testy_step_direction [OF s d rd_2, of "testy_cmd ''--'' None"] a b rd_2
    by (auto simp: testy_cmd_def)
qed

text \<open>
  C10 as stated fails where rounding absorbs the step: with the history holding 1 and
  the double next above 1, and the current value 1, the midpoint of \<^verbatim>\<open>+\<close> is a tie that
  rounds to 1, so the candidate is the current value, not strictly above it.
\<close>

theorem testy_step_direction_counterexample:
  "sorted [1, next_after_one] \<and> distinct [1, next_after_one] \<and>
   0 < BISECT_MAX \<and> round_double 1 = 1 \<and> round_double next_after_one = next_after_one \<and>
   nearest_above [1, next_after_one] 1 = Some next_after_one \<and>
   testy_candidate_double [1, next_after_one] 1 (testy_cmd ''+'' None) = Inr 1 \<and>
   \<not> (\<exists>c. testy_candidate_double [1, next_after_one] 1 (testy_cmd ''+'' None) = Inr c \<and> 1 < c)"
proof -
  have c: "testy_candidate_double [1, next_after_one] 1 (testy_cmd ''+'' None) = Inr 1"
    using step_up_ge [OF rd_1]
    by (simp add: testy_candidate_double_def testy_insert_adjacent testy_next_y_pos_double_def
        testy_cmd_def rd_tie rd_1 Let_def)
  have n: "nearest_above [1, next_after_one] 1 = Some next_after_one"
    by (simp add: nearest_above_def next_after_one_def)
  have s: "sorted [1, next_after_one] \<and> distinct [1, next_after_one]"
    by (simp add: next_after_one_def)
  show ?thesis
    using s n by (simp add: c rd_1 rd_next_1 BISECT_MAX_def)
qed

text \<open>
  The strict direction also fails beyond the sentinel: with an empty history and the
  current value at \<open>10 ^ 13\<close>, \<^verbatim>\<open>+\<close> gives a candidate below the current value.
\<close>

theorem testy_step_sentinel_example:
  "round_double (10 ^ 13) = 10 ^ 13 \<and> nearest_above [] (10 ^ 13) = None \<and>
   (\<exists>c. testy_candidate_double [] (10 ^ 13) (testy_cmd ''+'' None) = Inr c \<and> c < 10 ^ 13)"
proof -
  have "testy_candidate_double [] (10 ^ 13) (testy_cmd ''+'' None) =
      Inr (min (round_double (round_double (round_double 9999999999999.9 + 10 ^ 13) / 2))
               (round_double (10 ^ 13 + round_double BISECT_MAX)))"
    by (simp add: testy_candidate_double_def testy_insert_empty testy_next_y_pos_double_def
        testy_cmd_def Let_def)
  moreover have "min (round_double (round_double (round_double 9999999999999.9 + 10 ^ 13) / 2))
               (round_double (10 ^ 13 + round_double BISECT_MAX)) < 10 ^ 13"
    using sentinel_midpoint_below by (simp add: min_less_iff_disj)
  moreover have "nearest_above [] (10 ^ 13) = None" by (simp add: nearest_above_def)
  ultimately show ?thesis using rd_a0 by blast
qed

section \<open>Frames and evaluation at the example states\<close>

lemma bisect_left_Nil: "bisect_left [] y = 0"
  by (simp add: bisect_left_def bisect_left_loop.simps)

lemma init_idle: "BeltProbeHelper_init probe_cmd idle_printer = (Inr (), started_helper, started_printer)"
  by (simp add: BeltProbeHelper_init_def verify_no_manual_probe_def register_command_def
      respond_info_def report_y_status_def get_kinematics_pos_def item_def bisect_left_Nil
      probe_cmd_def idle_printer_def started_helper_def started_printer_def Let_def)

lemma finalize_False:
  "finalize self False p =
     (self, p\<lparr>probe_status := \<lparr>is_active = False, y_position = None,
                                 y_position_lower = None, y_position_upper = None\<rparr>,
               handlers := (handlers p)(''ACCEPT'' := None, ''NEXT'' := None,
                                        ''ABORT'' := None, ''TESTY'' := None),
               finalized := finalized p @ [None]\<rparr>)"
  by (simp add: finalize_def reset_status_def register_command_def Let_def)

lemma finalize_handlers:
  "handlers (snd (finalize self b p)) =
     (handlers p)(''ACCEPT'' := None, ''NEXT'' := None, ''ABORT'' := None, ''TESTY'' := None)"
  by (simp add: finalize_def reset_status_def register_command_def get_kinematics_pos_def Let_def
      split: prod.splits)

lemma finalize_finalized:
  "finalized (snd (finalize self b p)) =
     finalized p @ [if b then fst (get_kinematics_pos self p) else None]"
  by (simp add: finalize_def reset_status_def register_command_def get_kinematics_pos_def Let_def
      split: prod.splits)


lemma finalize_positions:
  "toolhead_position (snd (finalize self b p)) = toolhead_position p"
  "kinematics_position (snd (finalize self b p)) = kinematics_position p"
  by (simp_all add: finalize_def reset_status_def register_command_def get_kinematics_pos_def Let_def
      split: prod.splits)














lemma candidate_zero_started:
  "testy_candidate (past_positions started_helper) 2 (testy_cmd ''0'' (Some 0)) = Inr 2"
  by (simp add: testy_candidate_def testy_insert_empty testy_next_y_pos_def testy_cmd_def
      started_helper_def)




lemma init_conflict:
  assumes "handlers p ''ACCEPT'' \<noteq> None"
  shows "fst (BeltProbeHelper_init g p) =
           Inl (Gcode_error ''Already in a Belt probe. Use ABORT to abort it.'')"
    and "snd (snd (BeltProbeHelper_init g p)) = p"
  using assms
  by (auto simp: BeltProbeHelper_init_def verify_no_manual_probe_def register_command_def Let_def)

lemma init_registers:
  assumes "fst (BeltProbeHelper_init g p) = Inr ()"
  shows "handlers (snd (snd (BeltProbeHelper_init g p))) ''ACCEPT'' = Some Cmd_ACCEPT"
  using assms
  by (auto simp: BeltProbeHelper_init_def verify_no_manual_probe_def register_command_def
      respond_info_def report_y_status_def get_kinematics_pos_def item_def Let_def
      split: if_splits)

lemma init_succeeds:
  assumes "handlers p ''ACCEPT'' = None" "handlers p ''NEXT'' = None"
    "handlers p ''ABORT'' = None" "handlers p ''TESTY'' = None"
    "1 < length (kinematics_position p)"
  shows "fst (BeltProbeHelper_init g p) = Inr ()"
  using assms
  by (simp add: BeltProbeHelper_init_def verify_no_manual_probe_def register_command_def
      respond_info_def report_y_status_def get_kinematics_pos_def item_def Let_def)

section \<open>The commands\<close>

text \<open>
  C4, as amended. With a start position and a current position of at least three
  coordinates, \<^verbatim>\<open>ACCEPT\<close> finalizes with success (the callback gets the resolved
  position) exactly when the first two coordinates of the current position equal those
  of the start position and the third is strictly less than the start's third;
  coordinates after the third are not compared. Otherwise it sends the failure message
  and then does what \<^verbatim>\<open>ABORT\<close> does: it finalizes with failure (the callback gets no
  value).
\<close>

theorem accept_outcome:
  assumes "start_position self = Some start"
    and "2 < length (toolhead_position p)" and "2 < length start"
  shows "(take 2 (toolhead_position p) = take 2 start \<and> toolhead_position p ! 2 < start ! 2 \<longrightarrow>
            cmd_ACCEPT self g p = (Inr (), finalize self True p) \<and>
            finalized (snd (snd (cmd_ACCEPT self g p))) =
              finalized p @ [fst (get_kinematics_pos self p)]) \<and>
         (\<not> (take 2 (toolhead_position p) = take 2 start \<and> toolhead_position p ! 2 < start ! 2) \<longrightarrow>
            cmd_ACCEPT self g p = cmd_ABORT self g (respond_info Belt_probe_failed p) \<and>
            responses (snd (snd (cmd_ACCEPT self g p))) = responses p @ [Belt_probe_failed] \<and>
            finalized (snd (snd (cmd_ACCEPT self g p))) = finalized p @ [None])"
proof (cases "take 2 (toolhead_position p) = take 2 start \<and> toolhead_position p ! 2 < start ! 2")
  case True
  then have eq: "cmd_ACCEPT self g p = (Inr (), finalize self True p)"
    using assms by (simp add: cmd_ACCEPT_def Let_def split: prod.splits)
  then have "finalized (snd (snd (cmd_ACCEPT self g p))) =
      finalized p @ [fst (get_kinematics_pos self p)]"
    using finalize_finalized [of self True p] by simp
  with True eq show ?thesis by blast
next
  case False
  then have eq: "cmd_ACCEPT self g p = cmd_ABORT self g (respond_info Belt_probe_failed p)"
    using assms by (auto simp: cmd_ACCEPT_def cmd_ABORT_def Let_def split: prod.splits)
  then have "responses (snd (snd (cmd_ACCEPT self g p))) = responses p @ [Belt_probe_failed]"
    and "finalized (snd (snd (cmd_ACCEPT self g p))) = finalized p @ [None]"
    by (simp_all add: cmd_ABORT_def finalize_False respond_info_def)
  with False eq show ?thesis by blast
qed

theorem accept_outcome_witness:
  "start_position started_helper = Some [0, 2, 1, 0] \<and>
   cmd_ACCEPT started_helper probe_cmd (started_printer\<lparr>toolhead_position := [0, 2, 0.5, 0]\<rparr>) =
     (Inr (), finalize started_helper True (started_printer\<lparr>toolhead_position := [0, 2, 0.5, 0]\<rparr>)) \<and>
   cmd_ACCEPT started_helper probe_cmd started_printer =
     cmd_ABORT started_helper probe_cmd (respond_info Belt_probe_failed started_printer) \<and>
   finalized (snd (snd (cmd_ACCEPT started_helper probe_cmd started_printer))) = [None]"
  using accept_outcome [of started_helper "[0, 2, 1, 0]"
      "started_printer\<lparr>toolhead_position := [0, 2, 0.5, 0]\<rparr>" probe_cmd]
    accept_outcome [of started_helper "[0, 2, 1, 0]" started_printer probe_cmd]
  by (simp add: started_helper_def started_printer_def cmd_ABORT_def finalize_False respond_info_def)

text \<open>
  C4 as stated fails on a position with a fourth coordinate: here the extruder
  coordinate differs from the start's, so the position does not match the start in every
  coordinate but the probed one, and \<^verbatim>\<open>ACCEPT\<close> still finalizes with success.
\<close>

theorem accept_outcome_counterexample:
  "start_position started_helper = Some [0, 2, 1, 0] \<and>
   \<not> accept_condition_claimed [0, 2, 0.5, 1] [0, 2, 1, 0] \<and>
   cmd_ACCEPT started_helper probe_cmd (started_printer\<lparr>toolhead_position := [0, 2, 0.5, 1]\<rparr>) =
     (Inr (), finalize started_helper True (started_printer\<lparr>toolhead_position := [0, 2, 0.5, 1]\<rparr>)) \<and>
   finalized (snd (snd (cmd_ACCEPT started_helper probe_cmd
     (started_printer\<lparr>toolhead_position := [0, 2, 0.5, 1]\<rparr>)))) = [Some [0, 2, 1]]"
  by (simp add: cmd_ACCEPT_def accept_condition_claimed_def started_helper_def started_printer_def
      finalize_def reset_status_def register_command_def get_kinematics_pos_def Let_def)




text \<open>
  C6. While a session is active, which is while \<^verbatim>\<open>ACCEPT\<close> is registered, as it is
  after every successful construction, the construction of a second session fails with
  the session-conflict error and leaves the printer, hence the registered commands, as it
  is; the first helper, with its history and start position, is not an argument of the
  construction and cannot change. After a finalize, of any helper with any outcome, the
  construction of a session succeeds, provided the kinematics resolve a position of at
  least two coordinates, which the first status report reads.
\<close>

theorem session_guard:
  "(handlers p ''ACCEPT'' \<noteq> None \<longrightarrow>
      fst (BeltProbeHelper_init g p) =
        Inl (Gcode_error ''Already in a Belt probe. Use ABORT to abort it.'') \<and>
      snd (snd (BeltProbeHelper_init g p)) = p) \<and>
   (fst (BeltProbeHelper_init g p) = Inr () \<longrightarrow>
      handlers (snd (snd (BeltProbeHelper_init g p))) ''ACCEPT'' = Some Cmd_ACCEPT) \<and>
   (1 < length (kinematics_position p) \<longrightarrow>
      fst (BeltProbeHelper_init g (snd (finalize self b p))) = Inr ())"
proof -
  have "fst (BeltProbeHelper_init g (snd (finalize self b p))) = Inr ()"
    if "1 < length (kinematics_position p)"
    using that by (intro init_succeeds) (simp_all add: finalize_handlers finalize_positions)
  then show ?thesis using init_conflict [of p g] init_registers [of g p] by blast
qed

theorem session_guard_witness:
  "handlers started_printer ''ACCEPT'' \<noteq> None \<and>
   fst (BeltProbeHelper_init probe_cmd started_printer) =
     Inl (Gcode_error ''Already in a Belt probe. Use ABORT to abort it.'') \<and>
   snd (snd (BeltProbeHelper_init probe_cmd started_printer)) = started_printer \<and>
   fst (BeltProbeHelper_init probe_cmd idle_printer) = Inr () \<and>
   handlers (snd (snd (BeltProbeHelper_init probe_cmd idle_printer))) ''ACCEPT'' = Some Cmd_ACCEPT \<and>
   1 < length (kinematics_position started_printer) \<and>
   fst (BeltProbeHelper_init probe_cmd (snd (finalize started_helper True started_printer))) = Inr ()"
proof -
  have a: "handlers started_printer ''ACCEPT'' \<noteq> None" by (simp add: started_printer_def)
  have b: "fst (BeltProbeHelper_init probe_cmd idle_printer) = Inr ()" by (simp add: init_idle)
  have c: "1 < length (kinematics_position started_printer)" by (simp add: started_printer_def)
  show ?thesis
    using session_guard [of started_printer probe_cmd started_helper True]
      session_guard [of idle_printer probe_cmd started_helper True] a b c
    by simp
qed










text \<open>
  C9. When the construction of a session succeeds, the history is empty, the status is
  active with the resolved value and no neighbour on either side, and the messages sent
  are the start message and a position report with no neighbour on either side.
\<close>

theorem init_reports_empty_history:
  assumes "BeltProbeHelper_init g p = (Inr (), self, p')"
  shows "past_positions self = [] \<and> 1 < length (kinematics_position p) \<and>
         probe_status p' = \<lparr>is_active = True, y_position = Some (kinematics_position p ! 1),
                             y_position_lower = None, y_position_upper = None\<rparr> \<and>
         responses p' = responses p @
           [Starting_belt_probe, Y_position None (kinematics_position p ! 1) None]"
  using assms
  by (auto simp: BeltProbeHelper_init_def verify_no_manual_probe_def register_command_def
      respond_info_def report_y_status_def get_kinematics_pos_def item_def bisect_left_Nil Let_def
      split: if_splits)

theorem init_reports_empty_history_witness:
  "BeltProbeHelper_init probe_cmd idle_printer = (Inr (), started_helper, started_printer) \<and>
   past_positions started_helper = [] \<and>
   probe_status started_printer = \<lparr>is_active = True, y_position = Some 2,
                             y_position_lower = None, y_position_upper = None\<rparr> \<and>
   responses started_printer = [Starting_belt_probe, Y_position None 2 None]"
proof -
  have "past_positions started_helper = [] \<and>
      probe_status started_printer = \<lparr>is_active = True, y_position = Some 2,
                             y_position_lower = None, y_position_upper = None\<rparr> \<and>
      responses started_printer = [Starting_belt_probe, Y_position None 2 None]"
    using init_reports_empty_history [OF init_idle] by (simp add: idle_printer_def)
  then show ?thesis using init_idle by simp
qed


end
